theory Spec2Isabelle
  imports Main "HOL-Library.Word"
begin

section \<open>Data model of nrf\_802154\_buffer\_allocator.c\<close>

text \<open>
  The target is a 32-bit Cortex-M core (the critical section reads PRIMASK), so
  \<^verbatim>\<open>uintptr_t\<close>, \<^verbatim>\<open>size_t\<close> and \<^verbatim>\<open>uint32_t\<close> are all 32-bit unsigned words.
  Pointers are addresses, and \<^verbatim>\<open>NULL\<close> is the address 0.
\<close>

type_synonym addr = "32 word"
type_synonym size_t = "32 word"

abbreviation (input) NULL :: addr where
  "NULL \<equiv> 0"

text \<open>
  \<^verbatim>\<open>nrf_802154_buffer_t\<close>: one slot of the pool, a payload and the flag \<^verbatim>\<open>taken\<close>.
  The flag is volatile in the source: every read of it is a read of memory.
\<close>

record nrf_802154_buffer_t =
  data :: "8 word list"
  taken :: bool

text \<open>
  The declaration of \<^verbatim>\<open>nrf_802154_buffer_t\<close> lives in the header
  \<^verbatim>\<open>nrf_802154_buffer_allocator.h\<close>. The allocator uses two numbers of it only:
  \<^verbatim>\<open>sizeof(nrf_802154_buffer_t)\<close> and the offset of the member \<^verbatim>\<open>data\<close>. Both are
  parameters of the model.
\<close>

record layout =
  slot_size :: size_t
  data_offset :: size_t

text \<open>A C struct is not empty and contains its members.\<close>

definition layout_ok :: "layout \<Rightarrow> bool" where
  "layout_ok L = (0 < slot_size L \<and> data_offset L < slot_size L)"

text \<open>\<^verbatim>\<open>nrf_802154_buffer_allocator_t\<close>: the allocator object.\<close>

record nrf_802154_buffer_allocator_t =
  p_memory :: addr
  capacity :: size_t

text \<open>
  The memory behind \<^verbatim>\<open>p_buffer_pool\<close>, seen as the array the code indexes:
  \<open>m i\<close> is \<^verbatim>\<open>p_buffer_pool[i]\<close>.
\<close>

type_synonym pool_mem = "32 word \<Rightarrow> nrf_802154_buffer_t"

text \<open>The assignment \<^verbatim>\<open>p_buffer_pool[i].taken = b\<close>.\<close>

definition set_taken :: "pool_mem \<Rightarrow> 32 word \<Rightarrow> bool \<Rightarrow> pool_mem" where
  "set_taken m i b = m(i := (m i)\<lparr>taken := b\<rparr>)"

text \<open>\<^verbatim>\<open>&p_buffer_pool[i]\<close> and \<^verbatim>\<open>p_buffer_pool[i].data\<close> as addresses.\<close>

definition slot_addr :: "layout \<Rightarrow> addr \<Rightarrow> 32 word \<Rightarrow> addr" where
  "slot_addr L p_buffer_pool i = p_buffer_pool + i * slot_size L"

definition payload_addr :: "layout \<Rightarrow> addr \<Rightarrow> 32 word \<Rightarrow> addr" where
  "payload_addr L p_buffer_pool i = slot_addr L p_buffer_pool i + data_offset L"

text \<open>
  \<^verbatim>\<open>assert\<close> aborts the program; reading a member through a null pointer is undefined.
  Both are error values of the model.
\<close>

datatype error = AssertionFailed | NullDereference

section \<open>Preemption\<close>

text \<open>
  The allocator runs on one core and may be preempted by interrupt handlers of higher
  priority wherever interrupts are enabled. A handler runs to completion before the
  preempted code resumes, so all it does to the pool is one function on the pool memory.
  The environment of a call is the list of the handlers that will arrive, in order; at
  each point where the code can be preempted the next one runs, if there is one. The
  empty list is the sequential execution.

  \<^verbatim>\<open>critical_section_enter\<close> saves PRIMASK and disables the interrupts,
  \<^verbatim>\<open>critical_section_exit\<close> restores PRIMASK
  (\<^verbatim>\<open>CONFIG_NRF_802154_SER_BUFFER_ALLOCATOR_THREAD_SAFE\<close>): no handler runs between
  the two. Without that option both are empty and the code is meant for a system without
  preemption, which is the empty environment.
\<close>

type_synonym irq = "pool_mem \<Rightarrow> pool_mem"

text \<open>
  The state of one call of \<^verbatim>\<open>buffer_alloc\<close>: its three local variables, the pool memory
  and the handlers still to arrive. \<open>p_buffer\<close> is \<open>None\<close> for \<^verbatim>\<open>NULL\<close> and \<open>Some i\<close>
  for \<^verbatim>\<open>&p_buffer_pool[i]\<close>. \<open>reads\<close> counts the evaluations of the loop's
  \<^verbatim>\<open>!p_buffer->taken\<close> and \<open>scans\<close> the iterations of the do-while loop; the code
  does not have these two counters, the model keeps them to measure its work.
\<close>

record alloc_state =
  p_buffer :: "32 word option"
  success :: bool
  retry :: bool
  pool :: pool_mem
  pending :: "irq list"
  reads :: nat
  scans :: nat

definition preempt :: "alloc_state \<Rightarrow> alloc_state" where
  "preempt s =
     (case pending s of
        [] \<Rightarrow> s
      | f # fs \<Rightarrow> s\<lparr>pool := f (pool s), pending := fs\<rparr>)"

section \<open>buffer\_alloc\<close>

text \<open>
  The \<^verbatim>\<open>for\<close> loop of \<^verbatim>\<open>buffer_alloc\<close>, from index \<open>i\<close>. The code can be preempted
  before it reads the flag of slot \<open>i\<close>, and again between that read and
  \<^verbatim>\<open>critical_section_enter\<close>. Inside the critical section interrupts are disabled:
  the second read of the flag and the write are one step.
\<close>

function for_loop :: "size_t \<Rightarrow> 32 word \<Rightarrow> alloc_state \<Rightarrow> alloc_state" where
  "for_loop buffer_pool_len i s =
     (if i < buffer_pool_len then
        let s1 = preempt (s\<lparr>p_buffer := Some i\<rparr>);
            s2 = s1\<lparr>reads := reads s1 + 1\<rparr>
        in if \<not> taken (pool s2 i) then
             let s3 = preempt s2
             in if taken (pool s3 i) then s3\<lparr>retry := True\<rparr>
                else s3\<lparr>pool := set_taken (pool s3) i True, success := True\<rparr>
           else for_loop buffer_pool_len (i + 1) s2
      else s)"
  by pat_completeness auto
termination
proof (relation "measure (\<lambda>(buffer_pool_len, i, s). unat (buffer_pool_len - i))")
  show "wf (measure (\<lambda>(buffer_pool_len :: 32 word, i, s :: alloc_state). unat (buffer_pool_len - i)))"
    by simp
next
  fix buffer_pool_len i :: "32 word" and s x xa :: alloc_state
  assume "i < buffer_pool_len"
  then have "unat (buffer_pool_len - (i + 1)) < unat (buffer_pool_len - i)"
    by unat_arith
  then show "((buffer_pool_len, i + 1, xa), buffer_pool_len, i, s)
      \<in> measure (\<lambda>(buffer_pool_len, i, s). unat (buffer_pool_len - i))"
    by simp
qed

declare for_loop.simps [simp del]

text \<open>
  The do-while loop: each iteration clears \<^verbatim>\<open>retry\<close> and scans from index 0. A scan
  sets \<^verbatim>\<open>retry\<close> only when a handler ran between the two reads of a flag, so every
  repetition uses up at least one handler of the environment.
\<close>

function do_while :: "size_t \<Rightarrow> alloc_state \<Rightarrow> alloc_state" where
  "do_while buffer_pool_len s =
     (let s1 = for_loop buffer_pool_len 0 (s\<lparr>retry := False, scans := scans s + 1\<rparr>)
      in if retry s1 then do_while buffer_pool_len s1 else s1)"
  by pat_completeness auto
termination
proof (relation "measure (\<lambda>(buffer_pool_len, s). length (pending s))")
  show "wf (measure (\<lambda>(buffer_pool_len :: 32 word, s :: alloc_state). length (pending s)))"
    by simp
next
  fix buffer_pool_len :: "32 word" and s x :: alloc_state
  assume x: "x = for_loop buffer_pool_len 0 (s\<lparr>retry := False, scans := scans s + 1\<rparr>)"
    and r: "retry x"
  have shrink: "length (pending (preempt t)) \<le> length (pending t)" for t
    by (simp add: preempt_def split: list.split)
  have idle: "pending t = [] \<Longrightarrow> preempt t = t" for t
    by (simp add: preempt_def)
  have strict: "preempt t \<noteq> t \<Longrightarrow> length (pending (preempt t)) < length (pending t)" for t
    using idle [of t] by (cases "pending t") (auto simp: preempt_def)
  have key: "retry (for_loop n i t) \<Longrightarrow> \<not> retry t \<Longrightarrow>
      length (pending (for_loop n i t)) < length (pending t)" for n i t
  proof (induction n i t rule: for_loop.induct)
    case (1 n i t)
    show ?case
    proof (cases "i < n")
      case False
      with "1.prems" show ?thesis by (simp add: for_loop.simps [of n i t])
    next
      case True
      define s1 where "s1 = preempt (t\<lparr>p_buffer := Some i\<rparr>)"
      define s2 where "s2 = s1\<lparr>reads := reads s1 + 1\<rparr>"
      define s3 where "s3 = preempt s2"
      have l1: "length (pending s2) \<le> length (pending t)"
        using shrink [of "t\<lparr>p_buffer := Some i\<rparr>"] by (simp add: s1_def s2_def)
      have r2: "\<not> retry s2"
        using "1.prems"(2) by (simp add: s1_def s2_def preempt_def split: list.split)
      show ?thesis
      proof (cases "taken (pool s2 i)")
        case True
        have eq: "for_loop n i t = for_loop n (i + 1) s2"
          using \<open>i < n\<close> True by (simp add: for_loop.simps [of n i t] s1_def s2_def Let_def)
        have "length (pending (for_loop n (i + 1) s2)) < length (pending s2)"
          using "1.IH" [OF \<open>i < n\<close> s1_def s2_def] True "1.prems"(1) r2 eq by simp
        with l1 eq show ?thesis by simp
      next
        case False
        have eq: "for_loop n i t =
            (if taken (pool s3 i) then s3\<lparr>retry := True\<rparr>
             else s3\<lparr>pool := set_taken (pool s3) i True, success := True\<rparr>)"
          using \<open>i < n\<close> False
          by (simp add: for_loop.simps [of n i t] s1_def s2_def s3_def Let_def)
        have r3: "\<not> retry s3"
          using r2 by (simp add: s3_def preempt_def split: list.split)
        have tk: "taken (pool s3 i)"
          using "1.prems"(1) eq r3 by (auto split: if_splits)
        then have "s3 \<noteq> s2" using False by auto
        then have "length (pending s3) < length (pending s2)"
          using strict [of s2] by (simp add: s3_def)
        with l1 eq tk show ?thesis by simp
      qed
    qed
  qed
  have "length (pending x) < length (pending (s\<lparr>retry := False, scans := scans s + 1\<rparr>))"
    unfolding x using r [unfolded x] by (intro key) simp_all
  then show "((buffer_pool_len, x), buffer_pool_len, s)
      \<in> measure (\<lambda>(buffer_pool_len, s). length (pending s))"
    by simp
qed

declare do_while.simps [simp del]

text \<open>
  \<^verbatim>\<open>buffer_alloc\<close>: the locals start as \<^verbatim>\<open>NULL\<close>, \<^verbatim>\<open>false\<close>, \<^verbatim>\<open>false\<close>; the result is
  \<^verbatim>\<open>success ? p_buffer->data : NULL\<close>, which evaluates \<^verbatim>\<open>p_buffer->data\<close> only when
  \<^verbatim>\<open>success\<close> is true.
\<close>

definition buffer_alloc_run :: "size_t \<Rightarrow> irq list \<Rightarrow> pool_mem \<Rightarrow> alloc_state" where
  "buffer_alloc_run buffer_pool_len irqs m =
     do_while buffer_pool_len
       \<lparr>p_buffer = None, success = False, retry = False, pool = m, pending = irqs,
        reads = 0, scans = 0\<rparr>"

definition buffer_alloc ::
  "layout \<Rightarrow> addr \<Rightarrow> size_t \<Rightarrow> irq list \<Rightarrow> pool_mem \<Rightarrow> error + (addr \<times> pool_mem)" where
  "buffer_alloc L p_buffer_pool buffer_pool_len irqs m =
     (let s = buffer_alloc_run buffer_pool_len irqs m
      in if success s then
           (case p_buffer s of
              None \<Rightarrow> Inl NullDereference
            | Some i \<Rightarrow> Inr (payload_addr L p_buffer_pool i, pool s))
         else Inr (NULL, pool s))"

section \<open>buffer\_free\<close>

text \<open>
  The index is computed on \<^verbatim>\<open>uintptr_t\<close>: the subtraction wraps around and the division
  truncates. The only check is the assertion on the index.
\<close>

definition buffer_free :: "layout \<Rightarrow> addr \<Rightarrow> addr \<Rightarrow> size_t \<Rightarrow> pool_mem \<Rightarrow> error + pool_mem" where
  "buffer_free L p_buffer_to_free p_buffer_pool buffer_pool_len m =
     (let idx = (p_buffer_to_free - p_buffer_pool) div slot_size L
      in if idx < buffer_pool_len then Inr (set_taken m idx False)
         else Inl AssertionFailed)"

section \<open>The public functions\<close>

text \<open>The loop of \<^verbatim>\<open>nrf_802154_buffer_allocator_init\<close>, from index \<open>i\<close>.\<close>

function init_loop :: "size_t \<Rightarrow> 32 word \<Rightarrow> pool_mem \<Rightarrow> pool_mem" where
  "init_loop cap i m =
     (if i < cap then init_loop cap (i + 1) (set_taken m i False) else m)"
  by pat_completeness auto
termination
proof (relation "measure (\<lambda>(cap, i, m). unat (cap - i))")
  show "wf (measure (\<lambda>(cap :: 32 word, i, m :: pool_mem). unat (cap - i)))"
    by simp
next
  fix cap i :: "32 word" and m :: pool_mem
  assume "i < cap"
  then have "unat (cap - (i + 1)) < unat (cap - i)"
    by unat_arith
  then show "((cap, i + 1, set_taken m i False), cap, i, m)
      \<in> measure (\<lambda>(cap, i, m). unat (cap - i))"
    by simp
qed

declare init_loop.simps [simp del]

text \<open>
  \<^verbatim>\<open>nrf_802154_buffer_allocator_init\<close> writes the object behind \<^verbatim>\<open>p_obj\<close> and the
  flags of the memory behind \<^verbatim>\<open>p_memory\<close>; the model returns both.
\<close>

definition nrf_802154_buffer_allocator_init ::
  "layout \<Rightarrow> addr \<Rightarrow> size_t \<Rightarrow> pool_mem \<Rightarrow>
   error + (nrf_802154_buffer_allocator_t \<times> pool_mem)" where
  "nrf_802154_buffer_allocator_init L memory memsize m =
     (let cap = memsize div slot_size L
      in if cap = 0 \<or> (cap \<noteq> 0 \<and> memory \<noteq> NULL) then
           let p_obj = \<lparr>p_memory = memory, capacity = cap\<rparr>
           in Inr (p_obj, init_loop (capacity p_obj) 0 m)
         else Inl AssertionFailed)"

definition nrf_802154_buffer_allocator_alloc ::
  "layout \<Rightarrow> nrf_802154_buffer_allocator_t \<Rightarrow> irq list \<Rightarrow> pool_mem \<Rightarrow>
   error + (addr \<times> pool_mem)" where
  "nrf_802154_buffer_allocator_alloc L p_obj irqs m =
     buffer_alloc L (p_memory p_obj) (capacity p_obj) irqs m"

definition nrf_802154_buffer_allocator_free ::
  "layout \<Rightarrow> nrf_802154_buffer_allocator_t \<Rightarrow> addr \<Rightarrow> pool_mem \<Rightarrow> error + pool_mem" where
  "nrf_802154_buffer_allocator_free L p_obj p m =
     buffer_free L p (p_memory p_obj) (capacity p_obj) m"

section \<open>Sequences of calls\<close>

text \<open>
  \<open>alloc_many L p_obj c m\<close> calls allocate \<open>c\<close> times in a row, without preemption
  and with no release in between, and returns the pointers in the order of the calls.
\<close>

fun alloc_many ::
  "layout \<Rightarrow> nrf_802154_buffer_allocator_t \<Rightarrow> nat \<Rightarrow> pool_mem \<Rightarrow>
   error + (addr list \<times> pool_mem)" where
  "alloc_many L p_obj 0 m = Inr ([], m)"
| "alloc_many L p_obj (Suc c) m =
     (case nrf_802154_buffer_allocator_alloc L p_obj [] m of
        Inl e \<Rightarrow> Inl e
      | Inr (p, m1) \<Rightarrow>
          (case alloc_many L p_obj c m1 of
             Inl e \<Rightarrow> Inl e
           | Inr (ps, m2) \<Rightarrow> Inr (p # ps, m2)))"


text \<open>A call sequence stops at the first error.\<close>

definition bind_res :: "error + 'a \<Rightarrow> ('a \<Rightarrow> error + 'b) \<Rightarrow> error + 'b" where
  "bind_res r f = (case r of Inl e \<Rightarrow> Inl e | Inr x \<Rightarrow> f x)"

text \<open>
  The scenario of the specification: allocate A, B, C and D, release B, allocate E,
  release A, C and E, allocate three more times. The result is the list of the eight
  pointers, the memory after the three releases and the memory at the end.
\<close>

definition scenario ::
  "layout \<Rightarrow> nrf_802154_buffer_allocator_t \<Rightarrow> pool_mem \<Rightarrow>
   error + (addr list \<times> pool_mem \<times> pool_mem)" where
  "scenario L p_obj m0 =
     bind_res (nrf_802154_buffer_allocator_alloc L p_obj [] m0) (\<lambda>(a, m1).
     bind_res (nrf_802154_buffer_allocator_alloc L p_obj [] m1) (\<lambda>(b, m2).
     bind_res (nrf_802154_buffer_allocator_alloc L p_obj [] m2) (\<lambda>(c, m3).
     bind_res (nrf_802154_buffer_allocator_alloc L p_obj [] m3) (\<lambda>(d, m4).
     bind_res (nrf_802154_buffer_allocator_free L p_obj b m4) (\<lambda>m5.
     bind_res (nrf_802154_buffer_allocator_alloc L p_obj [] m5) (\<lambda>(e, m6).
     bind_res (nrf_802154_buffer_allocator_free L p_obj a m6) (\<lambda>m7.
     bind_res (nrf_802154_buffer_allocator_free L p_obj c m7) (\<lambda>m8.
     bind_res (nrf_802154_buffer_allocator_free L p_obj e m8) (\<lambda>m9.
     bind_res (nrf_802154_buffer_allocator_alloc L p_obj [] m9) (\<lambda>(f, m10).
     bind_res (nrf_802154_buffer_allocator_alloc L p_obj [] m10) (\<lambda>(g, m11).
     bind_res (nrf_802154_buffer_allocator_alloc L p_obj [] m11) (\<lambda>(h, m12).
     Inr ([a, b, c, d, e, f, g, h], m9, m12)))))))))))))"


text \<open>
  The handler of an interrupt that calls allocate once, and is not preempted itself.
\<close>

definition alloc_irq :: "layout \<Rightarrow> nrf_802154_buffer_allocator_t \<Rightarrow> irq" where
  "alloc_irq L p_obj m =
     (case nrf_802154_buffer_allocator_alloc L p_obj [] m of
        Inl e \<Rightarrow> m
      | Inr (p, m') \<Rightarrow> m')"


section \<open>Notions of the specification\<close>

text \<open>
  Slot \<open>k\<close> is the first free slot of a pool of \<open>n\<close> slots: its flag is clear and the
  flags of all slots before it are set.
\<close>

definition first_free :: "pool_mem \<Rightarrow> size_t \<Rightarrow> 32 word \<Rightarrow> bool" where
  "first_free m n k = (k < n \<and> \<not> taken (m k) \<and> (\<forall>j. j < k \<longrightarrow> taken (m j)))"

text \<open>
  The \<open>n\<close> slots at \<open>base\<close> lie in the address space without wrapping around, and
  \<open>base\<close> is not \<^verbatim>\<open>NULL\<close> unless the pool is empty (what the assertion of
  \<^verbatim>\<open>nrf_802154_buffer_allocator_init\<close> checks).
\<close>

definition region_ok :: "layout \<Rightarrow> addr \<Rightarrow> size_t \<Rightarrow> bool" where
  "region_ok L base n =
     ((n = 0 \<or> base \<noteq> NULL) \<and> unat base + unat n * unat (slot_size L) \<le> 2 ^ 32)"

text \<open>A handler that leaves the pool alone.\<close>

definition quiet :: irq where
  "quiet m = m"

text \<open>Two states of a call that differ in nothing its result depends on.\<close>

definition same_obs :: "alloc_state \<Rightarrow> alloc_state \<Rightarrow> bool" where
  "same_obs s t =
     (success s = success t \<and> retry s = retry t \<and> pool s = pool t \<and>
      pending s = pending t \<and> (success s \<longrightarrow> p_buffer s = p_buffer t))"

section \<open>A concrete pool\<close>

text \<open>
  A pool of three slots of 130 bytes at the start of the RAM, the payload first in each
  slot, and a memory in which every slot is free. The theorems below are run on it.
\<close>

definition ex_layout :: layout where
  "ex_layout = \<lparr>slot_size = 130, data_offset = 0\<rparr>"

definition ex_pool :: nrf_802154_buffer_allocator_t where
  "ex_pool = \<lparr>p_memory = 0x20000000, capacity = 3\<rparr>"

definition ex_mem :: pool_mem where
  "ex_mem = (\<lambda>i. \<lparr>data = [], taken = False\<rparr>)"


section \<open>The scan without preemption\<close>

lemma preempt_idle: "pending s = [] \<Longrightarrow> preempt s = s"
  by (simp add: preempt_def)

lemma for_loop_stop: "\<not> i < n \<Longrightarrow> for_loop n i s = s"
  by (simp add: for_loop.simps [of n i s])

lemma for_loop_claim_seq:
  assumes "pending s = []" and "i \<le> k" and "k < n" and "\<not> taken (pool s k)"
    and "\<forall>j. i \<le> j \<and> j < k \<longrightarrow> taken (pool s j)"
  shows "for_loop n i s =
    s\<lparr>p_buffer := Some k, reads := reads s + Suc (unat k - unat i),
      pool := set_taken (pool s) k True, success := True\<rparr>"
  using assms
proof (induction n i s rule: for_loop.induct)
  case (1 n i s)
  from "1.prems" have lt: "i < n" by simp
  define s1 where "s1 = preempt (s\<lparr>p_buffer := Some i\<rparr>)"
  define s2 where "s2 = s1\<lparr>reads := reads s1 + 1\<rparr>"
  have s2_eq: "s2 = s\<lparr>p_buffer := Some i, reads := reads s + 1\<rparr>"
    using "1.prems"(1) by (simp add: s1_def s2_def preempt_idle)
  have p2: "preempt s2 = s2"
    using "1.prems"(1) by (simp add: preempt_idle s2_eq)
  have unfold: "for_loop n i s =
      (if \<not> taken (pool s2 i) then
         let s3 = preempt s2
         in if taken (pool s3 i) then s3\<lparr>retry := True\<rparr>
            else s3\<lparr>pool := set_taken (pool s3) i True, success := True\<rparr>
       else for_loop n (i + 1) s2)"
    using lt by (subst for_loop.simps) (simp add: Let_def s1_def s2_def)
  show ?case
  proof (cases "i = k")
    case True
    then show ?thesis
      using "1.prems"(4) unfolding unfold p2 Let_def by (simp add: s2_eq)
  next
    case False
    with "1.prems"(2) have ik: "i < k" by simp
    then have tk: "taken (pool s2 i)" using "1.prems"(5) by (simp add: s2_eq)
    have le: "i + 1 \<le> k" using ik by unat_arith
    have un: "unat (i + 1) = Suc (unat i)" using ik by unat_arith
    have ul: "unat i < unat k" using ik by unat_arith
    have all: "\<forall>j. i + 1 \<le> j \<and> j < k \<longrightarrow> taken (pool s2 j)"
    proof (intro allI impI)
      fix j assume "i + 1 \<le> j \<and> j < k"
      then have "i \<le> j \<and> j < k" using ik by unat_arith
      then show "taken (pool s2 j)" using "1.prems"(5) by (simp add: s2_eq)
    qed
    have "for_loop n (i + 1) s2 =
      s2\<lparr>p_buffer := Some k, reads := reads s2 + Suc (unat k - unat (i + 1)),
        pool := set_taken (pool s2) k True, success := True\<rparr>"
    proof (rule "1.IH" [OF lt s1_def s2_def])
      show "\<not> \<not> taken (pool s2 i)" using tk by simp
      show "pending s2 = []" using "1.prems"(1) by (simp add: s2_eq)
      show "i + 1 \<le> k" by (rule le)
      show "k < n" by (rule "1.prems"(3))
      show "\<not> taken (pool s2 k)" using "1.prems"(4) by (simp add: s2_eq)
      show "\<forall>j. i + 1 \<le> j \<and> j < k \<longrightarrow> taken (pool s2 j)" by (rule all)
    qed
    then show ?thesis
      unfolding unfold using tk un ul by (simp add: s2_eq)
  qed
qed

lemma for_loop_exhausted_seq:
  assumes "pending s = []" and "\<forall>j. i \<le> j \<and> j < n \<longrightarrow> taken (pool s j)"
  shows "for_loop n i s =
    (if i < n then s\<lparr>p_buffer := Some (n - 1), reads := reads s + unat (n - i)\<rparr> else s)"
  using assms
proof (induction n i s rule: for_loop.induct)
  case (1 n i s)
  show ?case
  proof (cases "i < n")
    case False
    then show ?thesis by (simp add: for_loop_stop)
  next
    case True
    define s1 where "s1 = preempt (s\<lparr>p_buffer := Some i\<rparr>)"
    define s2 where "s2 = s1\<lparr>reads := reads s1 + 1\<rparr>"
    have s2_eq: "s2 = s\<lparr>p_buffer := Some i, reads := reads s + 1\<rparr>"
      using "1.prems"(1) by (simp add: s1_def s2_def preempt_idle)
    have tk: "taken (pool s2 i)" using "1.prems"(2) True by (simp add: s2_eq)
    have step: "for_loop n i s = for_loop n (i + 1) s2"
      using True tk by (subst for_loop.simps) (simp add: Let_def s1_def s2_def)
    have ih: "for_loop n (i + 1) s2 =
      (if i + 1 < n then s2\<lparr>p_buffer := Some (n - 1), reads := reads s2 + unat (n - (i + 1))\<rparr>
       else s2)"
    proof (rule "1.IH" [OF True s1_def s2_def])
      show "\<not> \<not> taken (pool s2 i)" using tk by simp
      show "pending s2 = []" using "1.prems"(1) by (simp add: s2_eq)
      show "\<forall>j. i + 1 \<le> j \<and> j < n \<longrightarrow> taken (pool s2 j)"
      proof (intro allI impI)
        fix j assume "i + 1 \<le> j \<and> j < n"
        then have "i \<le> j \<and> j < n" using True by unat_arith
        then show "taken (pool s2 j)" using "1.prems"(2) by (simp add: s2_eq)
      qed
    qed
    have a1: "i + 1 < n \<Longrightarrow> Suc (unat (n - (i + 1))) = unat (n - i)"
      using True by unat_arith
    have a2: "\<not> i + 1 < n \<Longrightarrow> unat (n - i) = 1 \<and> i = n - 1"
      using True by unat_arith
    show ?thesis
      unfolding step ih using True a1 a2 by (auto simp: s2_eq)
  qed
qed

lemma first_free_exists:
  assumes "j < n" and "\<not> taken (m j)"
  shows "\<exists>k. first_free m n k"
proof -
  define k where "k = (LEAST x. \<not> taken (m x))"
  have a: "\<not> taken (m k)" unfolding k_def using assms(2) by (rule LeastI)
  have b: "k \<le> j" unfolding k_def using assms(2) by (rule Least_le)
  have c: "taken (m x)" if "x < k" for x
    using not_less_Least [of x "\<lambda>x. \<not> taken (m x)"] that by (auto simp: k_def)
  show ?thesis using a b c assms(1) by (auto simp: first_free_def intro!: exI [of _ k])
qed

lemma first_free_unique: "first_free m n k \<Longrightarrow> first_free m n k' \<Longrightarrow> k = k'"
  unfolding first_free_def by (meson linorder_neqE)

lemma buffer_alloc_run_claim:
  assumes "first_free m n k"
  shows "buffer_alloc_run n [] m =
    \<lparr>p_buffer = Some k, success = True, retry = False, pool = set_taken m k True,
     pending = [], reads = Suc (unat k), scans = 1\<rparr>"
proof -
  let ?s = "\<lparr>p_buffer = None, success = False, retry = False, pool = m, pending = [],
      reads = 0, scans = Suc 0\<rparr>"
  have "for_loop n 0 ?s =
      ?s\<lparr>p_buffer := Some k, reads := reads ?s + Suc (unat k - unat (0 :: 32 word)),
        pool := set_taken (pool ?s) k True, success := True\<rparr>"
    using assms by (intro for_loop_claim_seq) (simp_all add: first_free_def)
  then show ?thesis
    unfolding buffer_alloc_run_def by (subst do_while.simps) (simp add: Let_def)
qed

lemma buffer_alloc_run_exhausted:
  assumes "\<forall>j. j < n \<longrightarrow> taken (m j)"
  shows "buffer_alloc_run n [] m =
    \<lparr>p_buffer = (if 0 < n then Some (n - 1) else None), success = False, retry = False,
     pool = m, pending = [], reads = unat n, scans = 1\<rparr>"
proof -
  let ?s = "\<lparr>p_buffer = None, success = False, retry = False, pool = m, pending = [],
      reads = 0, scans = Suc 0\<rparr>"
  have "for_loop n 0 ?s =
      (if 0 < n then ?s\<lparr>p_buffer := Some (n - 1), reads := reads ?s + unat (n - 0)\<rparr> else ?s)"
    using assms by (intro for_loop_exhausted_seq) simp_all
  moreover have "\<not> 0 < n \<Longrightarrow> unat n = 0"
    using word_neq_0_conv [of n] by auto
  ultimately show ?thesis
    unfolding buffer_alloc_run_def by (subst do_while.simps) (simp add: Let_def)
qed

lemma buffer_alloc_seq_claim:
  "first_free m n k \<Longrightarrow>
   buffer_alloc L base n [] m = Inr (payload_addr L base k, set_taken m k True)"
  by (simp add: buffer_alloc_def buffer_alloc_run_claim)

lemma buffer_alloc_seq_null:
  "\<forall>j. j < n \<longrightarrow> taken (m j) \<Longrightarrow> buffer_alloc L base n [] m = Inr (NULL, m)"
  by (simp add: buffer_alloc_def buffer_alloc_run_exhausted)

section \<open>Addresses of the slots\<close>

lemma slot_offset_bound:
  assumes "layout_ok L" and "i < n"
  shows "unat i * unat (slot_size L) + unat (data_offset L) < unat n * unat (slot_size L)"
proof -
  have d: "unat (data_offset L) < unat (slot_size L)"
    using assms(1) by (simp add: layout_ok_def word_less_nat_alt)
  have "Suc (unat i) \<le> unat n"
    using assms(2) by (simp add: word_less_nat_alt)
  then have "Suc (unat i) * unat (slot_size L) \<le> unat n * unat (slot_size L)"
    by (rule mult_le_mono1)
  with d show ?thesis by simp
qed

lemma unat_offset:
  assumes "layout_ok L" and "i < n" and "unat n * unat (slot_size L) \<le> 2 ^ 32"
  shows "unat (i * slot_size L + data_offset L)
       = unat i * unat (slot_size L) + unat (data_offset L)"
proof -
  have b: "unat i * unat (slot_size L) + unat (data_offset L) < 2 ^ 32"
    using slot_offset_bound [OF assms(1,2)] assms(3) by simp
  then have "unat i * unat (slot_size L) < 2 ^ 32" by simp
  then have "unat (i * slot_size L) = unat i * unat (slot_size L)"
    by (simp add: unat_word_ariths)
  then show ?thesis using b by (simp add: unat_word_ariths)
qed

lemma payload_offset: "payload_addr L base i - base = i * slot_size L + data_offset L"
  by (simp add: payload_addr_def slot_addr_def)

lemma index_of_payload:
  assumes "layout_ok L" and "i < n" and "unat n * unat (slot_size L) \<le> 2 ^ 32"
  shows "(payload_addr L base i - base) div slot_size L = i"
proof -
  have d: "unat (data_offset L) < unat (slot_size L)"
    using assms(1) by (simp add: layout_ok_def word_less_nat_alt)
  have "unat ((i * slot_size L + data_offset L) div slot_size L)
      = (unat i * unat (slot_size L) + unat (data_offset L)) div unat (slot_size L)"
    by (simp add: unat_div unat_offset [OF assms])
  also have "\<dots> = unat i" using d by simp
  finally show ?thesis by (simp add: payload_offset word_unat_eq_iff)
qed

lemma unat_payload:
  assumes "layout_ok L" and "i < n" and "region_ok L base n"
  shows "unat (payload_addr L base i)
       = unat base + unat i * unat (slot_size L) + unat (data_offset L)"
proof -
  have r: "unat base + unat n * unat (slot_size L) \<le> 2 ^ 32"
    using assms(3) by (simp add: region_ok_def)
  then have n: "unat n * unat (slot_size L) \<le> 2 ^ 32" by simp
  define off where "off = i * slot_size L + data_offset L"
  have uo: "unat off = unat i * unat (slot_size L) + unat (data_offset L)"
    unfolding off_def by (rule unat_offset [OF assms(1,2) n])
  have p: "payload_addr L base i = base + off"
    by (simp add: payload_addr_def slot_addr_def off_def)
  have "unat base + unat off < 2 ^ 32"
    using slot_offset_bound [OF assms(1,2)] r by (simp add: uo)
  then have "unat (base + off) = unat base + unat off"
    by (simp add: unat_word_ariths)
  then show ?thesis by (simp add: p uo)
qed

lemma payload_not_null:
  assumes "layout_ok L" and "i < n" and "region_ok L base n"
  shows "payload_addr L base i \<noteq> NULL"
proof -
  have "n \<noteq> 0" using assms(2) by auto
  then have "0 < unat base" using assms(3) by (simp add: region_ok_def unat_gt_0)
  then have "0 < unat (payload_addr L base i)" by (simp add: unat_payload [OF assms])
  then show ?thesis by (simp add: unat_gt_0)
qed

lemma payload_in_region:
  assumes "layout_ok L" and "i < n" and "region_ok L base n"
  shows "unat base \<le> unat (payload_addr L base i) \<and>
    unat (payload_addr L base i) < unat base + unat n * unat (slot_size L)"
  using slot_offset_bound [OF assms(1,2)] by (simp add: unat_payload [OF assms])

lemma payload_inj:
  assumes "layout_ok L" and "i < n" and "j < n" and "unat n * unat (slot_size L) \<le> 2 ^ 32"
    and "payload_addr L base i = payload_addr L base j"
  shows "i = j"
proof -
  have "i = (payload_addr L base i - base) div slot_size L"
    using assms(1,2,4) by (rule index_of_payload [symmetric])
  also have "\<dots> = (payload_addr L base j - base) div slot_size L"
    by (simp only: assms(5))
  also have "\<dots> = j"
    using assms(1,3,4) by (rule index_of_payload)
  finally show ?thesis .
qed

section \<open>The scan under preemption\<close>

lemma preempt_quiet: "pending s = quiet # fs \<Longrightarrow> preempt s = s\<lparr>pending := fs\<rparr>"
  by (simp add: preempt_def quiet_def)

lemma for_loop_reach:
  assumes "pending s = replicate (Suc (unat k - unat i)) quiet @ rest"
    and "i \<le> k" and "k < n" and "\<not> taken (pool s k)"
    and "\<forall>j. i \<le> j \<and> j < k \<longrightarrow> taken (pool s j)"
  shows "for_loop n i s =
    (let s3 = preempt (s\<lparr>p_buffer := Some k, reads := reads s + Suc (unat k - unat i),
                         pending := rest\<rparr>)
     in if taken (pool s3 k) then s3\<lparr>retry := True\<rparr>
        else s3\<lparr>pool := set_taken (pool s3) k True, success := True\<rparr>)"
  using assms
proof (induction n i s rule: for_loop.induct)
  case (1 n i s)
  from "1.prems" have lt: "i < n" by simp
  define s1 where "s1 = preempt (s\<lparr>p_buffer := Some i\<rparr>)"
  define s2 where "s2 = s1\<lparr>reads := reads s1 + 1\<rparr>"
  have s2_eq: "s2 = s\<lparr>p_buffer := Some i, reads := reads s + 1,
      pending := replicate (unat k - unat i) quiet @ rest\<rparr>"
    using "1.prems"(1) by (simp add: s1_def s2_def preempt_quiet)
  have unfold: "for_loop n i s =
      (if \<not> taken (pool s2 i) then
         let s3 = preempt s2
         in if taken (pool s3 i) then s3\<lparr>retry := True\<rparr>
            else s3\<lparr>pool := set_taken (pool s3) i True, success := True\<rparr>
       else for_loop n (i + 1) s2)"
    using lt by (subst for_loop.simps) (simp add: Let_def s1_def s2_def)
  show ?case
  proof (cases "i = k")
    case True
    then show ?thesis
      using "1.prems"(4) unfolding unfold by (simp add: s2_eq Let_def)
  next
    case False
    with "1.prems"(2) have ik: "i < k" by simp
    then have tk: "taken (pool s2 i)" using "1.prems"(5) by (simp add: s2_eq)
    have le: "i + 1 \<le> k" using ik by unat_arith
    have un: "unat (i + 1) = Suc (unat i)" using ik by unat_arith
    have ul: "unat i < unat k" using ik by unat_arith
    then have rep: "unat k - unat i = Suc (unat k - unat (i + 1))"
      using un by simp
    have s2k: "s2\<lparr>p_buffer := Some k, reads := reads s2 + Suc (unat k - unat (i + 1)),
          pending := rest\<rparr>
        = s\<lparr>p_buffer := Some k, reads := reads s + Suc (unat k - unat i), pending := rest\<rparr>"
      using un ul by (simp add: s2_eq)
    have "for_loop n (i + 1) s2 =
      (let s3 = preempt (s2\<lparr>p_buffer := Some k,
                            reads := reads s2 + Suc (unat k - unat (i + 1)), pending := rest\<rparr>)
       in if taken (pool s3 k) then s3\<lparr>retry := True\<rparr>
          else s3\<lparr>pool := set_taken (pool s3) k True, success := True\<rparr>)"
    proof (rule "1.IH" [OF lt s1_def s2_def])
      show "\<not> \<not> taken (pool s2 i)" using tk by simp
      show "pending s2 = replicate (Suc (unat k - unat (i + 1))) quiet @ rest"
        using rep by (simp add: s2_eq)
      show "i + 1 \<le> k" by (rule le)
      show "k < n" by (rule "1.prems"(3))
      show "\<not> taken (pool s2 k)" using "1.prems"(4) by (simp add: s2_eq)
      show "\<forall>j. i + 1 \<le> j \<and> j < k \<longrightarrow> taken (pool s2 j)"
      proof (intro allI impI)
        fix j assume "i + 1 \<le> j \<and> j < k"
        then have "i \<le> j \<and> j < k" using ik by unat_arith
        then show "taken (pool s2 j)" using "1.prems"(5) by (simp add: s2_eq)
      qed
    qed
    then show ?thesis
      unfolding unfold s2k using tk by simp
  qed
qed

lemma same_obs_preempt: "same_obs s t \<Longrightarrow> same_obs (preempt s) (preempt t)"
  by (auto simp: same_obs_def preempt_def split: list.splits)

lemma same_obs_for_loop: "same_obs s t \<Longrightarrow> same_obs (for_loop n i s) (for_loop n i t)"
proof (induction n i s arbitrary: t rule: for_loop.induct)
  case (1 n i s)
  show ?case
  proof (cases "i < n")
    case False
    then show ?thesis using "1.prems" by (simp add: for_loop_stop)
  next
    case True
    define s1 where "s1 = preempt (s\<lparr>p_buffer := Some i\<rparr>)"
    define s2 where "s2 = s1\<lparr>reads := reads s1 + 1\<rparr>"
    define t1 where "t1 = preempt (t\<lparr>p_buffer := Some i\<rparr>)"
    define t2 where "t2 = t1\<lparr>reads := reads t1 + 1\<rparr>"
    have "same_obs (s\<lparr>p_buffer := Some i\<rparr>) (t\<lparr>p_buffer := Some i\<rparr>)"
      using "1.prems" by (simp add: same_obs_def)
    then have o1: "same_obs s1 t1" unfolding s1_def t1_def by (rule same_obs_preempt)
    have pb: "p_buffer s1 = Some i" "p_buffer t1 = Some i"
      by (simp_all add: s1_def t1_def preempt_def split: list.split)
    have o2: "same_obs s2 t2" "p_buffer s2 = p_buffer t2"
      using o1 pb by (simp_all add: s2_def t2_def same_obs_def)
    have o3: "same_obs (preempt s2) (preempt t2)" using o2(1) by (rule same_obs_preempt)
    have pb3: "p_buffer (preempt s2) = p_buffer (preempt t2)"
      using o2(2) by (simp add: preempt_def same_obs_def split: list.split)
    have us: "for_loop n i s =
      (if \<not> taken (pool s2 i) then
         let s3 = preempt s2
         in if taken (pool s3 i) then s3\<lparr>retry := True\<rparr>
            else s3\<lparr>pool := set_taken (pool s3) i True, success := True\<rparr>
       else for_loop n (i + 1) s2)"
      using True by (subst for_loop.simps) (simp add: Let_def s1_def s2_def)
    have ut: "for_loop n i t =
      (if \<not> taken (pool t2 i) then
         let s3 = preempt t2
         in if taken (pool s3 i) then s3\<lparr>retry := True\<rparr>
            else s3\<lparr>pool := set_taken (pool s3) i True, success := True\<rparr>
       else for_loop n (i + 1) t2)"
      using True by (subst for_loop.simps) (simp add: Let_def t1_def t2_def)
    have same: "pool s2 = pool t2" using o2(1) by (simp add: same_obs_def)
    show ?thesis
    proof (cases "taken (pool s2 i)")
      case tk: True
      have "same_obs (for_loop n (i + 1) s2) (for_loop n (i + 1) t2)"
        using "1.IH" [OF True s1_def s2_def _ o2(1)] tk by simp
      then show ?thesis unfolding us ut using tk same by simp
    next
      case nt: False
      show ?thesis unfolding us ut using nt same o3 pb3
        by (simp add: Let_def same_obs_def)
    qed
  qed
qed

lemma same_obs_do_while: "same_obs s t \<Longrightarrow> same_obs (do_while n s) (do_while n t)"
proof (induction n s arbitrary: t rule: do_while.induct)
  case (1 n s)
  define s1 where "s1 = for_loop n 0 (s\<lparr>retry := False, scans := scans s + 1\<rparr>)"
  define t1 where "t1 = for_loop n 0 (t\<lparr>retry := False, scans := scans t + 1\<rparr>)"
  have "same_obs (s\<lparr>retry := False, scans := scans s + 1\<rparr>) (t\<lparr>retry := False, scans := scans t + 1\<rparr>)"
    using "1.prems" by (simp add: same_obs_def)
  then have o1: "same_obs s1 t1" unfolding s1_def t1_def by (rule same_obs_for_loop)
  have us: "do_while n s = (if retry s1 then do_while n s1 else s1)"
    by (subst do_while.simps) (simp add: Let_def s1_def)
  have ut: "do_while n t = (if retry t1 then do_while n t1 else t1)"
    by (subst do_while.simps) (simp add: Let_def t1_def)
  have r: "retry s1 = retry t1" using o1 by (simp add: same_obs_def)
  show ?case
  proof (cases "retry s1")
    case True
    then show ?thesis unfolding us ut using r "1.IH" [OF s1_def True o1] by simp
  next
    case False
    then show ?thesis unfolding us ut using r o1 by simp
  qed
qed

lemma buffer_alloc_lost_race:
  assumes "first_free m n k" and "taken (f m k)"
  shows "buffer_alloc L base n (replicate (Suc (unat k)) quiet @ f # es) m
       = buffer_alloc L base n es (f m)"
proof -
  let ?s0 = "\<lparr>p_buffer = None, success = False, retry = False, pool = m,
      pending = replicate (Suc (unat k)) quiet @ f # es, reads = 0, scans = Suc 0\<rparr>"
  let ?s1 = "\<lparr>p_buffer = Some k, success = False, retry = True, pool = f m,
      pending = es, reads = Suc (unat k), scans = Suc 0\<rparr>"
  let ?t = "\<lparr>p_buffer = None, success = False, retry = False, pool = f m,
      pending = es, reads = 0, scans = 0\<rparr>"
  have "for_loop n 0 ?s0 =
    (let s3 = preempt (?s0\<lparr>p_buffer := Some k,
        reads := reads ?s0 + Suc (unat k - unat (0 :: 32 word)), pending := f # es\<rparr>)
     in if taken (pool s3 k) then s3\<lparr>retry := True\<rparr>
        else s3\<lparr>pool := set_taken (pool s3) k True, success := True\<rparr>)"
    using assms(1) by (intro for_loop_reach) (simp_all add: first_free_def del: replicate.simps)
  then have scan: "for_loop n 0 ?s0 = ?s1"
    using assms(2) by (simp add: preempt_def del: replicate.simps)
  have run: "buffer_alloc_run n (replicate (Suc (unat k)) quiet @ f # es) m = do_while n ?s1"
    unfolding buffer_alloc_run_def
    by (subst do_while.simps) (simp add: Let_def scan del: replicate.simps)
  define a where "a = do_while n ?s1"
  define b where "b = do_while n ?t"
  have "same_obs (?s1\<lparr>retry := False\<rparr>) ?t" by (simp add: same_obs_def)
  then have "same_obs (do_while n (?s1\<lparr>retry := False\<rparr>)) (do_while n ?t)"
    by (rule same_obs_do_while)
  moreover have "do_while n (?s1\<lparr>retry := False\<rparr>) = do_while n ?s1"
    by (subst do_while.simps, subst (2) do_while.simps) simp
  ultimately have ab: "same_obs a b" by (simp add: a_def b_def)
  have "(if success a then
           (case p_buffer a of None \<Rightarrow> Inl NullDereference
            | Some i \<Rightarrow> Inr (payload_addr L base i, pool a))
         else Inr (NULL, pool a))
      = (if success b then
           (case p_buffer b of None \<Rightarrow> Inl NullDereference
            | Some i \<Rightarrow> Inr (payload_addr L base i, pool b))
         else Inr (NULL, pool b))"
    using ab by (cases "success a") (auto simp: same_obs_def split: option.split)
  then show ?thesis
    unfolding buffer_alloc_def run buffer_alloc_run_def [of n es "f m"] Let_def a_def b_def .
qed

lemma set_taken_apply [simp]:
  "set_taken m i b j = (if j = i then (m i)\<lparr>taken := b\<rparr> else m j)"
  by (simp add: set_taken_def)


section \<open>Bounds and invariants of the loops, under any preemption\<close>

lemma preempt_fields:
  "p_buffer (preempt s) = p_buffer s" "success (preempt s) = success s"
  "retry (preempt s) = retry s" "reads (preempt s) = reads s" "scans (preempt s) = scans s"
  by (simp_all add: preempt_def split: list.split)

lemma preempt_shrink: "length (pending (preempt s)) \<le> length (pending s)"
  by (simp add: preempt_def split: list.split)

lemma preempt_changed: "pool (preempt s) \<noteq> pool s \<Longrightarrow> length (pending (preempt s)) < length (pending s)"
  by (auto simp: preempt_def split: list.splits)

lemma for_loop_facts:
  "scans (for_loop n i s) = scans s
   \<and> reads (for_loop n i s) \<le> reads s + unat (n - i)
   \<and> length (pending (for_loop n i s)) \<le> length (pending s)
   \<and> (retry s \<longrightarrow> retry (for_loop n i s))
   \<and> (retry (for_loop n i s) \<longrightarrow> retry s \<or> length (pending (for_loop n i s)) < length (pending s))
   \<and> ((success s \<longrightarrow> p_buffer s \<noteq> None) \<longrightarrow>
        (success (for_loop n i s) \<longrightarrow> p_buffer (for_loop n i s) \<noteq> None))"
proof (induction n i s rule: for_loop.induct)
  case (1 n i s)
  show ?case
  proof (cases "i < n")
    case False
    then show ?thesis by (simp add: for_loop_stop)
  next
    case True
    define s1 where "s1 = preempt (s\<lparr>p_buffer := Some i\<rparr>)"
    define s2 where "s2 = s1\<lparr>reads := reads s1 + 1\<rparr>"
    define s3 where "s3 = preempt s2"
    have unfold: "for_loop n i s =
      (if \<not> taken (pool s2 i) then
         if taken (pool s3 i) then s3\<lparr>retry := True\<rparr>
         else s3\<lparr>pool := set_taken (pool s3) i True, success := True\<rparr>
       else for_loop n (i + 1) s2)"
      using True by (subst for_loop.simps) (simp add: Let_def s1_def s2_def s3_def)
    have f2: "scans s2 = scans s" "reads s2 = Suc (reads s)" "retry s2 = retry s"
      "success s2 = success s" "p_buffer s2 = Some i"
      by (simp_all add: s2_def s1_def preempt_fields)
    have l2: "length (pending s2) \<le> length (pending s)"
      using preempt_shrink [of "s\<lparr>p_buffer := Some i\<rparr>"] by (simp add: s2_def s1_def)
    have f3: "scans s3 = scans s" "reads s3 = Suc (reads s)" "retry s3 = retry s"
      "success s3 = success s" "p_buffer s3 = Some i"
      using f2 by (simp_all add: s3_def preempt_fields)
    have l3: "length (pending s3) \<le> length (pending s2)"
      unfolding s3_def by (rule preempt_shrink)
    have rd: "Suc (unat (n - (i + 1))) = unat (n - i)" "0 < unat (n - i)"
      using True by unat_arith+
    show ?thesis
    proof (cases "taken (pool s2 i)")
      case tk: True
      have eq: "for_loop n i s = for_loop n (i + 1) s2"
        unfolding unfold using tk by simp
      have ih: "scans (for_loop n (i + 1) s2) = scans s2
        \<and> reads (for_loop n (i + 1) s2) \<le> reads s2 + unat (n - (i + 1))
        \<and> length (pending (for_loop n (i + 1) s2)) \<le> length (pending s2)
        \<and> (retry s2 \<longrightarrow> retry (for_loop n (i + 1) s2))
        \<and> (retry (for_loop n (i + 1) s2) \<longrightarrow>
              retry s2 \<or> length (pending (for_loop n (i + 1) s2)) < length (pending s2))
        \<and> ((success s2 \<longrightarrow> p_buffer s2 \<noteq> None) \<longrightarrow>
            (success (for_loop n (i + 1) s2) \<longrightarrow> p_buffer (for_loop n (i + 1) s2) \<noteq> None))"
        using "1.IH" [OF True s1_def s2_def] tk by simp
      show ?thesis
        unfolding eq using ih f2 l2 rd by auto
    next
      case nt: False
      show ?thesis
      proof (cases "taken (pool s3 i)")
        case lost: True
        then have "pool s3 \<noteq> pool s2" using nt by auto
        then have "length (pending s3) < length (pending s2)"
          unfolding s3_def by (rule preempt_changed)
        then show ?thesis
          unfolding unfold using nt lost f3 l2 rd by simp
      next
        case won: False
        then show ?thesis
          unfolding unfold using nt f3 l2 l3 rd by simp
      qed
    qed
  qed
qed

lemma do_while_facts:
  "\<not> retry (do_while n s)
   \<and> scans s < scans (do_while n s)
   \<and> scans (do_while n s) + length (pending (do_while n s)) \<le> Suc (scans s + length (pending s))
   \<and> reads (do_while n s) \<le> reads s + (scans (do_while n s) - scans s) * unat n
   \<and> ((success s \<longrightarrow> p_buffer s \<noteq> None) \<longrightarrow>
        (success (do_while n s) \<longrightarrow> p_buffer (do_while n s) \<noteq> None))"
proof (induction n s rule: do_while.induct)
  case (1 n s)
  define s0 where "s0 = s\<lparr>retry := False, scans := scans s + 1\<rparr>"
  define s1 where "s1 = for_loop n 0 s0"
  have unfold: "do_while n s = (if retry s1 then do_while n s1 else s1)"
    by (subst do_while.simps) (simp add: Let_def s1_def s0_def)
  have f: "scans s1 = Suc (scans s)" "reads s1 \<le> reads s + unat n"
    "length (pending s1) \<le> length (pending s)"
    "retry s1 \<longrightarrow> length (pending s1) < length (pending s)"
    using for_loop_facts [of n 0 s0] by (simp_all add: s1_def s0_def)
  have g: "(success s \<longrightarrow> p_buffer s \<noteq> None) \<longrightarrow> (success s1 \<longrightarrow> p_buffer s1 \<noteq> None)"
    using for_loop_facts [of n 0 s0] by (simp add: s1_def s0_def)
  show ?case
  proof (cases "retry s1")
    case False
    then show ?thesis unfolding unfold using f g by simp
  next
    case True
    have ih: "\<not> retry (do_while n s1)
      \<and> scans s1 < scans (do_while n s1)
      \<and> scans (do_while n s1) + length (pending (do_while n s1)) \<le> Suc (scans s1 + length (pending s1))
      \<and> reads (do_while n s1) \<le> reads s1 + (scans (do_while n s1) - scans s1) * unat n
      \<and> ((success s1 \<longrightarrow> p_buffer s1 \<noteq> None) \<longrightarrow>
          (success (do_while n s1) \<longrightarrow> p_buffer (do_while n s1) \<noteq> None))"
      using "1.IH" [of s1] True by (simp add: s1_def s0_def)
    define c where "c = scans (do_while n s1) - scans s1"
    have c: "scans (do_while n s1) - scans s = Suc c" "scans s1 < scans (do_while n s1)"
      using ih f(1) by (auto simp: c_def)
    have "reads (do_while n s1) \<le> reads s1 + c * unat n" using ih by (simp add: c_def)
    then have "reads (do_while n s1) \<le> reads s + Suc c * unat n" using f(2) by simp
    then show ?thesis unfolding unfold using True ih f g c by simp
  qed
qed

section \<open>The loop of the initialisation\<close>

lemma init_loop_at:
  "init_loop cap i m j = (if i \<le> j \<and> j < cap then (m j)\<lparr>taken := False\<rparr> else m j)"
proof (induction cap i m rule: init_loop.induct)
  case (1 cap i m)
  show ?case
  proof (cases "i < cap")
    case False
    then have "\<not> (i \<le> j \<and> j < cap)" by auto
    then show ?thesis using False by (auto simp: init_loop.simps [of cap i m])
  next
    case True
    have a: "i + 1 \<le> j \<longleftrightarrow> i \<le> j \<and> j \<noteq> i" using True by unat_arith
    have "init_loop cap i m j = init_loop cap (i + 1) (set_taken m i False) j"
      using True by (subst init_loop.simps) simp
    also have "\<dots> = (if i + 1 \<le> j \<and> j < cap then (set_taken m i False j)\<lparr>taken := False\<rparr>
        else set_taken m i False j)"
      using "1.IH" [OF True] .
    finally show ?thesis using True a by auto
  qed
qed


section \<open>The result of buffer\_alloc is never an error\<close>

lemma buffer_alloc_empty_pool: "buffer_alloc_run 0 irqs m =
    \<lparr>p_buffer = None, success = False, retry = False, pool = m, pending = irqs,
     reads = 0, scans = 1\<rparr>"
  unfolding buffer_alloc_run_def
  by (subst do_while.simps) (simp add: Let_def for_loop_stop)

lemma buffer_alloc_total: "\<exists>p m'. buffer_alloc L base n irqs m = Inr (p, m')"
proof -
  define s where "s = buffer_alloc_run n irqs m"
  have "success s \<longrightarrow> p_buffer s \<noteq> None"
    using do_while_facts [of n "\<lparr>p_buffer = None, success = False, retry = False, pool = m,
      pending = irqs, reads = 0, scans = 0\<rparr>"]
    by (simp add: s_def buffer_alloc_run_def)
  then show ?thesis
    by (auto simp: buffer_alloc_def Let_def s_def [symmetric] split: option.split)
qed


section \<open>Sequences of calls on a pool\<close>

lemma word_less_2: "(j :: 32 word) < 2 \<longleftrightarrow> j = 0 \<or> j = 1"
  by unat_arith

lemma word_less_3: "(j :: 32 word) < 3 \<longleftrightarrow> j = 0 \<or> j = 1 \<or> j = 2"
  by unat_arith

lemma first_free_0: "0 < n \<Longrightarrow> \<not> taken (m 0) \<Longrightarrow> first_free m n 0"
  by (simp add: first_free_def)

lemma first_free_1: "1 < n \<Longrightarrow> taken (m 0) \<Longrightarrow> \<not> taken (m 1) \<Longrightarrow> first_free m n 1"
  by (simp add: first_free_def word_less_1)

lemma first_free_2:
  "2 < n \<Longrightarrow> taken (m 0) \<Longrightarrow> taken (m 1) \<Longrightarrow> \<not> taken (m 2) \<Longrightarrow> first_free m n 2"
  by (auto simp: first_free_def word_less_2)

lemma untake_free_slot: "\<not> taken (m k) \<Longrightarrow> set_taken (set_taken m k True) k False = m"
  by (rule ext) (simp add: set_taken_def)

lemma bind_res_Inr [simp]: "bind_res (Inr x) f = f x"
  by (simp add: bind_res_def)

lemma alloc_at:
  "first_free m (capacity p_obj) k \<Longrightarrow>
   nrf_802154_buffer_allocator_alloc L p_obj [] m
     = Inr (payload_addr L (p_memory p_obj) k, set_taken m k True)"
  unfolding nrf_802154_buffer_allocator_alloc_def by (rule buffer_alloc_seq_claim)

lemma alloc_full:
  "\<forall>j. j < capacity p_obj \<longrightarrow> taken (m j) \<Longrightarrow>
   nrf_802154_buffer_allocator_alloc L p_obj [] m = Inr (NULL, m)"
  unfolding nrf_802154_buffer_allocator_alloc_def by (rule buffer_alloc_seq_null)

lemma free_at:
  assumes "layout_ok L" and "region_ok L (p_memory p_obj) (capacity p_obj)"
    and "i < capacity p_obj"
  shows "nrf_802154_buffer_allocator_free L p_obj (payload_addr L (p_memory p_obj) i) m
       = Inr (set_taken m i False)"
proof -
  have "unat (capacity p_obj) * unat (slot_size L) \<le> 2 ^ 32"
    using assms(2) by (simp add: region_ok_def)
  with assms(1,3)
  have "(payload_addr L (p_memory p_obj) i - p_memory p_obj) div slot_size L = i"
    by (rule index_of_payload)
  then show ?thesis
    using assms(3)
    by (simp add: nrf_802154_buffer_allocator_free_def buffer_free_def Let_def)
qed

lemma scenario_run:
  assumes L: "layout_ok L" and R: "region_ok L (p_memory p_obj) (capacity p_obj)"
    and cap: "capacity p_obj = 3"
    and free: "\<not> taken (m0 0)" "\<not> taken (m0 1)" "\<not> taken (m0 2)"
  shows "scenario L p_obj m0 =
     Inr ([payload_addr L (p_memory p_obj) 0, payload_addr L (p_memory p_obj) 1,
           payload_addr L (p_memory p_obj) 2, NULL, payload_addr L (p_memory p_obj) 1,
           payload_addr L (p_memory p_obj) 0, payload_addr L (p_memory p_obj) 1,
           payload_addr L (p_memory p_obj) 2],
          m0, set_taken (set_taken (set_taken m0 0 True) 1 True) 2 True)"
proof -
  define m1 where "m1 = set_taken m0 0 True"
  define m2 where "m2 = set_taken m1 1 True"
  define m3 where "m3 = set_taken m2 2 True"
  define m5 where "m5 = set_taken m3 1 False"
  define m6 where "m6 = set_taken m5 1 True"
  define m7 where "m7 = set_taken m6 0 False"
  define m8 where "m8 = set_taken m7 2 False"
  define m9 where "m9 = set_taken m8 1 False"
  have lt: "(0 :: 32 word) < capacity p_obj" "(1 :: 32 word) < capacity p_obj"
    "(2 :: 32 word) < capacity p_obj"
    by (simp_all add: cap)
  have a0: "nrf_802154_buffer_allocator_alloc L p_obj [] m0
      = Inr (payload_addr L (p_memory p_obj) 0, m1)"
    unfolding m1_def using lt free by (intro alloc_at first_free_0)
  have a1: "nrf_802154_buffer_allocator_alloc L p_obj [] m1
      = Inr (payload_addr L (p_memory p_obj) 1, m2)"
    unfolding m2_def using lt free by (intro alloc_at first_free_1) (simp_all add: m1_def)
  have a2: "nrf_802154_buffer_allocator_alloc L p_obj [] m2
      = Inr (payload_addr L (p_memory p_obj) 2, m3)"
    unfolding m3_def using lt free
    by (intro alloc_at first_free_2) (simp_all add: m1_def m2_def)
  have a3: "nrf_802154_buffer_allocator_alloc L p_obj [] m3 = Inr (NULL, m3)"
    by (intro alloc_full) (auto simp: cap word_less_3 m1_def m2_def m3_def)
  have f1: "nrf_802154_buffer_allocator_free L p_obj (payload_addr L (p_memory p_obj) 1) m3
      = Inr m5"
    unfolding m5_def using L R lt(2) by (rule free_at)
  have a5: "nrf_802154_buffer_allocator_alloc L p_obj [] m5
      = Inr (payload_addr L (p_memory p_obj) 1, m6)"
    unfolding m6_def using lt
    by (intro alloc_at first_free_1) (simp_all add: m1_def m2_def m3_def m5_def)
  have f0: "nrf_802154_buffer_allocator_free L p_obj (payload_addr L (p_memory p_obj) 0) m6
      = Inr m7"
    unfolding m7_def using L R lt(1) by (rule free_at)
  have f2: "nrf_802154_buffer_allocator_free L p_obj (payload_addr L (p_memory p_obj) 2) m7
      = Inr m8"
    unfolding m8_def using L R lt(3) by (rule free_at)
  have f1b: "nrf_802154_buffer_allocator_free L p_obj (payload_addr L (p_memory p_obj) 1) m8
      = Inr m9"
    unfolding m9_def using L R lt(2) by (rule free_at)
  have restored: "m9 = m0"
    using free
    by (intro ext) (simp add: m1_def m2_def m3_def m5_def m6_def m7_def m8_def m9_def set_taken_def)
  show ?thesis
    unfolding scenario_def
    by (simp add: a0 a1 a2 a3 f1 a5 f0 f2 f1b restored) (simp add: m1_def m2_def m3_def)
qed

lemma alloc_many_fill:
  assumes "d = unat (capacity p_obj) - unat j" and "j \<le> capacity p_obj"
    and "\<forall>i. i < capacity p_obj \<longrightarrow> (taken (m i) \<longleftrightarrow> i < j)"
  shows "\<exists>m'. alloc_many L p_obj d m
        = Inr (map (\<lambda>i. payload_addr L (p_memory p_obj) (of_nat i))
                 [unat j..<unat (capacity p_obj)], m')
      \<and> (\<forall>i. i < capacity p_obj \<longrightarrow> taken (m' i))"
  using assms
proof (induction d arbitrary: j m)
  case 0
  then have "unat (capacity p_obj) \<le> unat j" by simp
  with "0.prems"(2) have "j = capacity p_obj" by (simp add: word_le_nat_alt word_unat_eq_iff)
  then show ?case using "0.prems" by simp
next
  case (Suc d)
  let ?n = "capacity p_obj"
  have lt: "j < ?n" using Suc.prems(1) by (simp add: word_less_nat_alt)
  have ff: "first_free m ?n j"
  proof -
    have "\<not> taken (m j)" using Suc.prems(3) lt by simp
    moreover have "taken (m i)" if "i < j" for i
      using Suc.prems(3) that lt by (simp add: order_less_trans)
    ultimately show ?thesis using lt by (simp add: first_free_def)
  qed
  have step: "nrf_802154_buffer_allocator_alloc L p_obj [] m
      = Inr (payload_addr L (p_memory p_obj) j, set_taken m j True)"
    unfolding nrf_802154_buffer_allocator_alloc_def using ff by (rule buffer_alloc_seq_claim)
  have un: "unat (j + 1) = Suc (unat j)" using lt by unat_arith
  have le: "j + 1 \<le> ?n" using lt by unat_arith
  have d: "d = unat ?n - unat (j + 1)" using Suc.prems(1) un by simp
  have inv: "\<forall>i. i < ?n \<longrightarrow> (taken (set_taken m j True i) \<longleftrightarrow> i < j + 1)"
  proof (intro allI impI)
    fix i assume "i < ?n"
    have "i < j + 1 \<longleftrightarrow> i < j \<or> i = j" using lt by unat_arith
    then show "taken (set_taken m j True i) \<longleftrightarrow> i < j + 1"
      using Suc.prems(3) \<open>i < ?n\<close> by auto
  qed
  obtain m' where rest: "alloc_many L p_obj d (set_taken m j True)
        = Inr (map (\<lambda>i. payload_addr L (p_memory p_obj) (of_nat i))
                 [unat (j + 1)..<unat ?n], m')"
      and full: "\<forall>i. i < ?n \<longrightarrow> taken (m' i)"
    using Suc.IH [OF d le inv] by blast
  have "[unat j..<unat ?n] = unat j # [unat (j + 1)..<unat ?n]"
    using lt un by (simp add: upt_conv_Cons word_less_nat_alt)
  then have "map (\<lambda>i. payload_addr L (p_memory p_obj) (of_nat i)) [unat j..<unat ?n]
      = payload_addr L (p_memory p_obj) j
        # map (\<lambda>i. payload_addr L (p_memory p_obj) (of_nat i)) [unat (j + 1)..<unat ?n]"
    by simp
  then show ?case using step rest full by simp
qed

lemma payload_aligned:
  assumes "layout_ok L" and "i < n" and "unat n * unat (slot_size L) \<le> 2 ^ 32"
  shows "(payload_addr L base i - base) mod slot_size L = data_offset L"
proof -
  have d: "unat (data_offset L) < unat (slot_size L)"
    using assms(1) by (simp add: layout_ok_def word_less_nat_alt)
  have "unat ((i * slot_size L + data_offset L) mod slot_size L)
      = (unat i * unat (slot_size L) + unat (data_offset L)) mod unat (slot_size L)"
    by (simp add: unat_mod unat_offset [OF assms])
  also have "\<dots> = unat (data_offset L)" using d by simp
  finally show ?thesis by (simp add: payload_offset word_unat_eq_iff)
qed

lemma region_ok_of_memsize:
  assumes "memsize div slot_size L = 0 \<or> memory \<noteq> NULL"
    and "unat memory + unat memsize \<le> 2 ^ 32"
  shows "region_ok L memory (memsize div slot_size L)"
proof -
  have "unat (memsize div slot_size L) * unat (slot_size L) \<le> unat memsize"
    by (simp add: unat_div)
  then show ?thesis using assms by (auto simp: region_ok_def)
qed


lemma ex_layout_ok: "layout_ok ex_layout"
  by (simp add: layout_ok_def ex_layout_def)

lemma ex_region_ok: "region_ok ex_layout (p_memory ex_pool) (capacity ex_pool)"
  by (simp add: region_ok_def ex_layout_def ex_pool_def)

lemma ex_payload:
  "payload_addr ex_layout (p_memory ex_pool) 0 = 0x20000000"
  "payload_addr ex_layout (p_memory ex_pool) 1 = 0x20000082"
  "payload_addr ex_layout (p_memory ex_pool) 2 = 0x20000104"
  by (simp_all add: payload_addr_def slot_addr_def ex_layout_def ex_pool_def)


section \<open>The claims\<close>

text \<open>
  C1. Without preemption, on a pool with a free slot, allocate takes the first free slot
  \<open>k\<close>: it reads the flags of the slots 0 to \<open>k\<close> and no other, sets the flag of slot
  \<open>k\<close> and of no other slot, writes no payload, and returns the payload pointer of slot
  \<open>k\<close>. When a handler that arrives between the read of the free flag and the critical
  section takes slot \<open>k\<close>, the call goes on exactly as a new call on the memory the
  handler left: it scans again from index 0.
\<close>

theorem alloc_claims_first_free:
  assumes "j < capacity p_obj" and "\<not> taken (m j)"
  shows "\<exists>k. first_free m (capacity p_obj) k \<and> k \<le> j
       \<and> nrf_802154_buffer_allocator_alloc L p_obj [] m
           = Inr (payload_addr L (p_memory p_obj) k, set_taken m k True)
       \<and> reads (buffer_alloc_run (capacity p_obj) [] m) = Suc (unat k)
       \<and> (\<forall>i. taken (set_taken m k True i) = (i = k \<or> taken (m i)))
       \<and> (\<forall>i. data (set_taken m k True i) = data (m i))
       \<and> (\<forall>f es. taken (f m k) \<longrightarrow>
            nrf_802154_buffer_allocator_alloc L p_obj
                (replicate (Suc (unat k)) quiet @ f # es) m
              = nrf_802154_buffer_allocator_alloc L p_obj es (f m))"
proof -
  obtain k where k: "first_free m (capacity p_obj) k"
    using first_free_exists [of j "capacity p_obj" m, OF assms] by blast
  have "\<not> j < k" using k assms(2) by (auto simp: first_free_def)
  then have le: "k \<le> j" by simp
  have claim: "nrf_802154_buffer_allocator_alloc L p_obj [] m
      = Inr (payload_addr L (p_memory p_obj) k, set_taken m k True)"
    unfolding nrf_802154_buffer_allocator_alloc_def using k by (rule buffer_alloc_seq_claim)
  have rd: "reads (buffer_alloc_run (capacity p_obj) [] m) = Suc (unat k)"
    by (simp add: buffer_alloc_run_claim [OF k])
  have lost: "nrf_802154_buffer_allocator_alloc L p_obj (replicate (Suc (unat k)) quiet @ f # es) m
      = nrf_802154_buffer_allocator_alloc L p_obj es (f m)" if "taken (f m k)" for f es
    unfolding nrf_802154_buffer_allocator_alloc_def using k that
    by (rule buffer_alloc_lost_race)
  show ?thesis
    using k le claim rd lost by (intro exI [of _ k]) simp
qed

theorem alloc_claims_first_free_witness:
  "(2 :: 32 word) < capacity ex_pool \<and> \<not> taken (set_taken ex_mem 0 True 2)
   \<and> nrf_802154_buffer_allocator_alloc ex_layout ex_pool [] (set_taken ex_mem 0 True)
       = Inr (0x20000082, set_taken (set_taken ex_mem 0 True) 1 True)
   \<and> nrf_802154_buffer_allocator_alloc ex_layout ex_pool
         [quiet, quiet, \<lambda>m. set_taken (set_taken m 1 True) 0 False] (set_taken ex_mem 0 True)
       = Inr (0x20000000,
           set_taken (set_taken (set_taken (set_taken ex_mem 0 True) 1 True) 0 False) 0 True)"
proof -
  let ?m = "set_taken ex_mem 0 True"
  let ?f = "\<lambda>m. set_taken (set_taken m 1 True) 0 False"
  have j: "(2 :: 32 word) < capacity ex_pool" by (simp add: ex_pool_def)
  have j0: "(0 :: 32 word) < capacity ex_pool" by (simp add: ex_pool_def)
  have free2: "\<not> taken (?m 2)" by (simp add: ex_mem_def)
  have free0: "\<not> taken (?f ?m 0)" by simp
  have h1: "first_free ?m (capacity ex_pool) 1"
    by (intro first_free_1) (simp_all add: ex_pool_def ex_mem_def)
  have h0: "first_free (?f ?m) (capacity ex_pool) 0"
    by (intro first_free_0) (simp_all add: ex_pool_def)
  obtain k where k: "first_free ?m (capacity ex_pool) k"
    "nrf_802154_buffer_allocator_alloc ex_layout ex_pool [] ?m
       = Inr (payload_addr ex_layout (p_memory ex_pool) k, set_taken ?m k True)"
    "\<forall>f es. taken (f ?m k) \<longrightarrow>
       nrf_802154_buffer_allocator_alloc ex_layout ex_pool
           (replicate (Suc (unat k)) quiet @ f # es) ?m
         = nrf_802154_buffer_allocator_alloc ex_layout ex_pool es (f ?m)"
    using alloc_claims_first_free [of 2 ex_pool ?m ex_layout, OF j free2] by blast
  have k1: "k = 1" using k(1) h1 by (rule first_free_unique)
  obtain k' where k': "first_free (?f ?m) (capacity ex_pool) k'"
    "nrf_802154_buffer_allocator_alloc ex_layout ex_pool [] (?f ?m)
       = Inr (payload_addr ex_layout (p_memory ex_pool) k', set_taken (?f ?m) k' True)"
    using alloc_claims_first_free [of 0 ex_pool "?f ?m" ex_layout, OF j0 free0] by blast
  have k0: "k' = 0" using k'(1) h0 by (rule first_free_unique)
  have first: "nrf_802154_buffer_allocator_alloc ex_layout ex_pool [] ?m
       = Inr (0x20000082, set_taken ?m 1 True)"
    using k(2) unfolding k1 by (simp only: ex_payload)
  have lost: "taken (?f ?m 1)" by simp
  have "nrf_802154_buffer_allocator_alloc ex_layout ex_pool
       (replicate (Suc (unat (1 :: 32 word))) quiet @ [?f]) ?m
     = nrf_802154_buffer_allocator_alloc ex_layout ex_pool [] (?f ?m)"
    using k(3) [unfolded k1, rule_format, of ?f "[]"] lost by (simp del: set_taken_apply)
  then have second: "nrf_802154_buffer_allocator_alloc ex_layout ex_pool [quiet, quiet, ?f] ?m
     = Inr (0x20000000, set_taken (?f ?m) 0 True)"
    using k'(2) unfolding k0 by (simp add: ex_payload del: set_taken_apply)
  show ?thesis
    using j free2 first second by (simp del: set_taken_apply)
qed

text \<open>
  C2. When its assertion holds, initialize returns the object with the given base and
  \<open>capacity = memsize div slot_size\<close> (truncating division), clears the flag of every
  slot below the capacity, and changes nothing else: every payload and every slot from
  the capacity on is as before.
\<close>

theorem init_marks_every_slot_free:
  assumes "memory \<noteq> NULL \<or> memsize div slot_size L = 0"
  shows "\<exists>p_obj m'. nrf_802154_buffer_allocator_init L memory memsize m = Inr (p_obj, m')
       \<and> capacity p_obj = memsize div slot_size L
       \<and> unat (capacity p_obj) = unat memsize div unat (slot_size L)
       \<and> p_memory p_obj = memory
       \<and> (\<forall>i. i < capacity p_obj \<longrightarrow> \<not> taken (m' i))
       \<and> (\<forall>i. data (m' i) = data (m i))
       \<and> (\<forall>i. capacity p_obj \<le> i \<longrightarrow> m' i = m i)"
proof -
  define cap where "cap = memsize div slot_size L"
  have "nrf_802154_buffer_allocator_init L memory memsize m
      = Inr (\<lparr>p_memory = memory, capacity = cap\<rparr>, init_loop cap 0 m)"
    using assms by (auto simp: nrf_802154_buffer_allocator_init_def Let_def cap_def)
  moreover have "unat cap = unat memsize div unat (slot_size L)"
    by (simp add: cap_def unat_div)
  moreover have "\<forall>i. i < cap \<longrightarrow> \<not> taken (init_loop cap 0 m i)"
    by (simp add: init_loop_at)
  moreover have "\<forall>i. data (init_loop cap 0 m i) = data (m i)"
    by (simp add: init_loop_at)
  moreover have "\<forall>i. cap \<le> i \<longrightarrow> init_loop cap 0 m i = m i"
    by (auto simp: init_loop_at)
  ultimately show ?thesis by (simp add: cap_def)
qed

theorem init_marks_every_slot_free_witness:
  "\<exists>m'. nrf_802154_buffer_allocator_init ex_layout 0x20000000 400
        (\<lambda>i. \<lparr>data = [7], taken = True\<rparr>)
      = Inr (\<lparr>p_memory = 0x20000000, capacity = 3\<rparr>, m')
     \<and> \<not> taken (m' 0) \<and> \<not> taken (m' 1) \<and> \<not> taken (m' 2) \<and> taken (m' 3)
     \<and> data (m' 1) = [7]"
proof -
  have h: "(0x20000000 :: addr) \<noteq> NULL \<or> (400 :: size_t) div slot_size ex_layout = 0"
    by simp
  have c: "(400 :: size_t) div slot_size ex_layout = 3"
    by (simp add: ex_layout_def)
  obtain p_obj m' where r:
    "nrf_802154_buffer_allocator_init ex_layout 0x20000000 400
        (\<lambda>i. \<lparr>data = [7], taken = True\<rparr>) = Inr (p_obj, m')"
    "capacity p_obj = 3" "p_memory p_obj = 0x20000000"
    "\<forall>i. i < capacity p_obj \<longrightarrow> \<not> taken (m' i)"
    "\<forall>i. data (m' i) = data ((\<lambda>i. \<lparr>data = [7], taken = True\<rparr>) i)"
    "\<forall>i. capacity p_obj \<le> i \<longrightarrow> m' i = (\<lambda>i. \<lparr>data = [7], taken = True\<rparr>) i"
    using init_marks_every_slot_free [OF h, of "\<lambda>i. \<lparr>data = [7], taken = True\<rparr>"] c
    by auto
  have "p_obj = \<lparr>p_memory = 0x20000000, capacity = 3\<rparr>"
    using r(2,3) by (cases p_obj) simp
  moreover have "\<not> taken (m' 0)" "\<not> taken (m' 1)" "\<not> taken (m' 2)"
    using r(4) by (simp_all add: r(2))
  moreover have "taken (m' 3)" using r(6) by (simp add: r(2))
  moreover have "data (m' 1) = [7]" using r(5) by simp
  ultimately show ?thesis using r(1) by auto
qed

text \<open>
  C3. On the pool that initialize returns for a memory region lying in the address space,
  \<open>capacity\<close> calls of allocate in a row return \<open>capacity\<close> pointers that are
  pairwise distinct and not \<^verbatim>\<open>NULL\<close>, each inside
  \<open>[base, base + capacity * slot_size)\<close> and at the payload offset of a whole slot
  (\<open>(p - base) mod slot_size = data_offset\<close>: slot-aligned when the payload is the first
  member of the slot), and one more call returns \<^verbatim>\<open>NULL\<close>.
\<close>

theorem fresh_pool_yields_capacity_distinct_buffers:
  assumes "layout_ok L" and "unat memory + unat memsize \<le> 2 ^ 32"
    and "nrf_802154_buffer_allocator_init L memory memsize m0 = Inr (p_obj, m)"
  shows "\<exists>ps m'. alloc_many L p_obj (unat (capacity p_obj)) m = Inr (ps, m')
       \<and> length ps = unat (capacity p_obj)
       \<and> distinct ps
       \<and> (\<forall>p \<in> set ps. p \<noteq> NULL
             \<and> unat (p_memory p_obj) \<le> unat p
             \<and> unat p < unat (p_memory p_obj) + unat (capacity p_obj) * unat (slot_size L)
             \<and> (p - p_memory p_obj) mod slot_size L = data_offset L
             \<and> (data_offset L = 0 \<longrightarrow> (p - p_memory p_obj) mod slot_size L = 0))
       \<and> nrf_802154_buffer_allocator_alloc L p_obj [] m' = Inr (NULL, m')"
proof -
  let ?n = "capacity p_obj"
  let ?f = "\<lambda>i. payload_addr L (p_memory p_obj) (of_nat i)"
  have ok: "memsize div slot_size L = 0 \<or> memory \<noteq> NULL"
    using assms(3) by (auto simp: nrf_802154_buffer_allocator_init_def Let_def split: if_splits)
  have obj: "p_obj = \<lparr>p_memory = memory, capacity = memsize div slot_size L\<rparr>"
    and mem: "m = init_loop (memsize div slot_size L) 0 m0"
    using assms(3) by (auto simp: nrf_802154_buffer_allocator_init_def Let_def split: if_splits)
  have reg: "region_ok L (p_memory p_obj) ?n"
    using region_ok_of_memsize [OF ok assms(2)] by (simp add: obj)
  then have nb: "unat ?n * unat (slot_size L) \<le> 2 ^ 32" by (simp add: region_ok_def)
  have free: "\<forall>i. i < ?n \<longrightarrow> (taken (m i) \<longleftrightarrow> i < 0)"
    by (simp add: mem obj init_loop_at)
  obtain m' where run: "alloc_many L p_obj (unat ?n) m = Inr (map ?f [0..<unat ?n], m')"
      and full: "\<forall>i. i < ?n \<longrightarrow> taken (m' i)"
    using alloc_many_fill [of "unat ?n" p_obj 0 m L] free by auto
  have idx: "of_nat i < ?n" "unat (of_nat i :: 32 word) = i" if "i < unat ?n" for i
  proof -
    have "unat ?n < 2 ^ 32" using unsigned_less [of ?n, where 'a = nat] by simp
    then have "i < 2 ^ 32" using that by simp
    then show u: "unat (of_nat i :: 32 word) = i" by (simp add: unat_of_nat)
    show "of_nat i < ?n" using that u by (simp add: word_less_nat_alt)
  qed
  have inj: "inj_on ?f (set [0..<unat ?n])"
  proof (rule inj_onI)
    fix a b assume "a \<in> set [0..<unat ?n]" and "b \<in> set [0..<unat ?n]" and e: "?f a = ?f b"
    then have a: "a < unat ?n" and b: "b < unat ?n" by simp_all
    have "(of_nat a :: 32 word) = of_nat b"
      using assms(1) idx(1) [OF a] idx(1) [OF b] nb e by (rule payload_inj)
    then have "unat (of_nat a :: 32 word) = unat (of_nat b :: 32 word)" by (rule arg_cong)
    then show "a = b" unfolding idx(2) [OF a] idx(2) [OF b] .
  qed
  have each: "p \<noteq> NULL \<and> unat (p_memory p_obj) \<le> unat p
      \<and> unat p < unat (p_memory p_obj) + unat ?n * unat (slot_size L)
      \<and> (p - p_memory p_obj) mod slot_size L = data_offset L
      \<and> (data_offset L = 0 \<longrightarrow> (p - p_memory p_obj) mod slot_size L = 0)"
    if "p \<in> set (map ?f [0..<unat ?n])" for p
  proof -
    from that obtain i where i: "i < unat ?n" and p: "p = ?f i" by auto
    have lt: "of_nat i < ?n" using i by (rule idx(1))
    show ?thesis
      unfolding p
      using payload_not_null [OF assms(1) lt reg] payload_in_region [OF assms(1) lt reg]
        payload_aligned [OF assms(1) lt nb]
      by simp
  qed
  have last: "nrf_802154_buffer_allocator_alloc L p_obj [] m' = Inr (NULL, m')"
    unfolding nrf_802154_buffer_allocator_alloc_def using full by (rule buffer_alloc_seq_null)
  show ?thesis
    using run inj each last by (intro exI [of _ "map ?f [0..<unat ?n]"] exI [of _ m'])
      (simp add: distinct_map)
qed

theorem fresh_pool_yields_capacity_distinct_buffers_witness:
  "layout_ok ex_layout \<and> unat (0x20000000 :: addr) + unat (400 :: size_t) \<le> 2 ^ 32
   \<and> nrf_802154_buffer_allocator_init ex_layout 0x20000000 400 ex_mem
        = Inr (ex_pool, init_loop 3 0 ex_mem)
   \<and> (\<exists>ps m'. alloc_many ex_layout ex_pool 3 (init_loop 3 0 ex_mem) = Inr (ps, m')
         \<and> length ps = 3 \<and> distinct ps \<and> NULL \<notin> set ps
         \<and> (\<forall>p \<in> set ps. (p - 0x20000000) mod 130 = 0)
         \<and> nrf_802154_buffer_allocator_alloc ex_layout ex_pool [] m' = Inr (NULL, m'))"
proof -
  have b: "unat (0x20000000 :: addr) + unat (400 :: size_t) \<le> 2 ^ 32" by simp
  have i: "nrf_802154_buffer_allocator_init ex_layout 0x20000000 400 ex_mem
        = Inr (ex_pool, init_loop 3 0 ex_mem)"
    by (simp add: nrf_802154_buffer_allocator_init_def ex_layout_def ex_pool_def)
  have c: "unat (capacity ex_pool) = 3" by (simp add: ex_pool_def)
  have l: "slot_size ex_layout = 130" "data_offset ex_layout = 0" "p_memory ex_pool = 0x20000000"
    by (simp_all add: ex_layout_def ex_pool_def)
  show ?thesis
    using fresh_pool_yields_capacity_distinct_buffers [OF ex_layout_ok b i] ex_layout_ok b i
    unfolding c l by fastforce
qed

text \<open>
  C4. Without preemption, on a pool whose slots lie in the address space, allocate
  returns \<^verbatim>\<open>NULL\<close> exactly when no slot below the capacity is free, and then the pool
  memory is as before the call. On a pool of capacity 0 it returns \<^verbatim>\<open>NULL\<close> and
  leaves the memory alone under every environment.
\<close>

theorem alloc_null_iff_no_free_slot:
  assumes "layout_ok L" and "region_ok L (p_memory p_obj) (capacity p_obj)"
  shows "\<exists>p m'. nrf_802154_buffer_allocator_alloc L p_obj [] m = Inr (p, m')
       \<and> (p = NULL \<longleftrightarrow> (\<forall>j. j < capacity p_obj \<longrightarrow> taken (m j)))
       \<and> (p = NULL \<longrightarrow> m' = m)
       \<and> (capacity p_obj = 0 \<longrightarrow>
            (\<forall>irqs. nrf_802154_buffer_allocator_alloc L p_obj irqs m = Inr (NULL, m)))"
proof (cases "\<forall>j. j < capacity p_obj \<longrightarrow> taken (m j)")
  case True
  have "nrf_802154_buffer_allocator_alloc L p_obj [] m = Inr (NULL, m)"
    unfolding nrf_802154_buffer_allocator_alloc_def using True by (rule buffer_alloc_seq_null)
  moreover have "nrf_802154_buffer_allocator_alloc L p_obj irqs m = Inr (NULL, m)"
    if "capacity p_obj = 0" for irqs
    using that
    by (simp add: nrf_802154_buffer_allocator_alloc_def buffer_alloc_def buffer_alloc_empty_pool)
  ultimately show ?thesis using True by simp
next
  case False
  then obtain j where "j < capacity p_obj" "\<not> taken (m j)" by auto
  then obtain k where k: "first_free m (capacity p_obj) k"
    using first_free_exists by blast
  then have kn: "k < capacity p_obj" by (simp add: first_free_def)
  have "nrf_802154_buffer_allocator_alloc L p_obj [] m
      = Inr (payload_addr L (p_memory p_obj) k, set_taken m k True)"
    unfolding nrf_802154_buffer_allocator_alloc_def using k by (rule buffer_alloc_seq_claim)
  moreover have "payload_addr L (p_memory p_obj) k \<noteq> NULL"
    using assms(1) kn assms(2) by (rule payload_not_null)
  moreover have "capacity p_obj \<noteq> 0" using kn by auto
  ultimately show ?thesis using False by simp
qed

theorem alloc_null_iff_no_free_slot_witness:
  "layout_ok ex_layout \<and> region_ok ex_layout (p_memory ex_pool) (capacity ex_pool)
   \<and> (\<exists>p. nrf_802154_buffer_allocator_alloc ex_layout ex_pool [] ex_mem
              = Inr (p, set_taken ex_mem 0 True) \<and> p \<noteq> NULL)
   \<and> nrf_802154_buffer_allocator_alloc ex_layout ex_pool []
        (\<lambda>i. \<lparr>data = [], taken = True\<rparr>) = Inr (NULL, \<lambda>i. \<lparr>data = [], taken = True\<rparr>)"
proof -
  have l: "layout_ok ex_layout" by (simp add: layout_ok_def ex_layout_def)
  have r: "region_ok ex_layout (p_memory ex_pool) (capacity ex_pool)"
    by (simp add: region_ok_def ex_layout_def ex_pool_def)
  have f: "first_free ex_mem (capacity ex_pool) 0"
    by (simp add: first_free_def ex_pool_def ex_mem_def)
  have a: "nrf_802154_buffer_allocator_alloc ex_layout ex_pool [] ex_mem
      = Inr (payload_addr ex_layout (p_memory ex_pool) 0, set_taken ex_mem 0 True)"
    unfolding nrf_802154_buffer_allocator_alloc_def using f by (rule buffer_alloc_seq_claim)
  have "\<not> (\<forall>j. j < capacity ex_pool \<longrightarrow> taken (ex_mem j))"
    by (auto simp: ex_pool_def ex_mem_def intro!: exI [of _ 0])
  then have "\<exists>p. nrf_802154_buffer_allocator_alloc ex_layout ex_pool [] ex_mem
              = Inr (p, set_taken ex_mem 0 True) \<and> p \<noteq> NULL"
    using alloc_null_iff_no_free_slot [OF l r, of ex_mem] a by auto
  moreover have "nrf_802154_buffer_allocator_alloc ex_layout ex_pool []
        (\<lambda>i. \<lparr>data = [], taken = True\<rparr>) = Inr (NULL, \<lambda>i. \<lparr>data = [], taken = True\<rparr>)"
    using alloc_null_iff_no_free_slot [OF l r, of "\<lambda>i. \<lparr>data = [], taken = True\<rparr>"] by auto
  ultimately show ?thesis using l r by simp
qed

text \<open>
  C5. For the handle of slot \<open>i\<close> of the pool (the payload pointer allocate returns for
  it), with the flag of the slot set, release computes the index
  \<open>(handle - base) div slot_size = i\<close>, succeeds, clears the flag of slot \<open>i\<close>, and
  leaves every other slot and the payload of slot \<open>i\<close> as they were.
\<close>

theorem free_clears_the_slot_of_a_valid_handle:
  assumes "layout_ok L" and "region_ok L (p_memory p_obj) (capacity p_obj)"
    and "i < capacity p_obj" and "taken (m i)"
  shows "(payload_addr L (p_memory p_obj) i - p_memory p_obj) div slot_size L = i
       \<and> nrf_802154_buffer_allocator_free L p_obj (payload_addr L (p_memory p_obj) i) m
           = Inr (set_taken m i False)
       \<and> \<not> taken (set_taken m i False i)
       \<and> (\<forall>j. j \<noteq> i \<longrightarrow> set_taken m i False j = m j)
       \<and> data (set_taken m i False i) = data (m i)"
proof -
  have "unat (capacity p_obj) * unat (slot_size L) \<le> 2 ^ 32"
    using assms(2) by (simp add: region_ok_def)
  with assms(1,3)
  have idx: "(payload_addr L (p_memory p_obj) i - p_memory p_obj) div slot_size L = i"
    by (rule index_of_payload)
  then show ?thesis
    using assms(3)
    by (simp add: nrf_802154_buffer_allocator_free_def buffer_free_def Let_def)
qed

theorem free_clears_the_slot_of_a_valid_handle_witness:
  "layout_ok ex_layout \<and> region_ok ex_layout (p_memory ex_pool) (capacity ex_pool)
   \<and> (1 :: 32 word) < capacity ex_pool \<and> taken (set_taken ex_mem 1 True 1)
   \<and> nrf_802154_buffer_allocator_free ex_layout ex_pool 0x20000082 (set_taken ex_mem 1 True)
       = Inr (set_taken (set_taken ex_mem 1 True) 1 False)"
proof -
  have l: "layout_ok ex_layout" by (simp add: layout_ok_def ex_layout_def)
  have r: "region_ok ex_layout (p_memory ex_pool) (capacity ex_pool)"
    by (simp add: region_ok_def ex_layout_def ex_pool_def)
  have i: "(1 :: 32 word) < capacity ex_pool" by (simp add: ex_pool_def)
  have t: "taken (set_taken ex_mem 1 True 1)" by simp
  have a: "payload_addr ex_layout (p_memory ex_pool) 1 = 0x20000082"
    by (simp add: payload_addr_def slot_addr_def ex_layout_def ex_pool_def)
  show ?thesis
    using free_clears_the_slot_of_a_valid_handle
        [of ex_layout ex_pool 1 "set_taken ex_mem 1 True", OF l r i t] l r i t
    unfolding a by simp
qed

text \<open>
  C6. A pointer that allocate returns is the handle of a slot \<open>k\<close> that was free; release
  accepts it and clears the flag of slot \<open>k\<close>, and the next allocate claims slot \<open>k\<close>
  again. On a pool of capacity 3 with its three slots free, the scenario yields pointers
  A, B, C, \<^verbatim>\<open>NULL\<close>, B, A, B, C with A, B, C distinct and not \<^verbatim>\<open>NULL\<close>, and after
  the three releases the memory is the one the scenario started from.
\<close>

theorem allocate_release_round_trip:
  assumes "layout_ok L" and "region_ok L (p_memory p_obj) (capacity p_obj)"
  shows "(\<forall>m p m1. nrf_802154_buffer_allocator_alloc L p_obj [] m = Inr (p, m1) \<and> p \<noteq> NULL \<longrightarrow>
            (\<exists>k. k < capacity p_obj \<and> p = payload_addr L (p_memory p_obj) k
               \<and> \<not> taken (m k) \<and> taken (m1 k)
               \<and> nrf_802154_buffer_allocator_free L p_obj p m1 = Inr (set_taken m1 k False)
               \<and> \<not> taken (set_taken m1 k False k)
               \<and> nrf_802154_buffer_allocator_alloc L p_obj [] (set_taken m1 k False)
                    = Inr (p, m1)))
       \<and> (capacity p_obj = 3 \<longrightarrow>
            (\<forall>m0. \<not> taken (m0 0) \<and> \<not> taken (m0 1) \<and> \<not> taken (m0 2) \<longrightarrow>
               (\<exists>A B C m12. scenario L p_obj m0 = Inr ([A, B, C, NULL, B, A, B, C], m0, m12)
                  \<and> distinct [A, B, C, NULL])))"
proof (intro conjI allI impI)
  fix m p m1
  assume a: "nrf_802154_buffer_allocator_alloc L p_obj [] m = Inr (p, m1) \<and> p \<noteq> NULL"
  have "\<not> (\<forall>j. j < capacity p_obj \<longrightarrow> taken (m j))"
    using a alloc_full [of p_obj m L] by auto
  then obtain k where k: "first_free m (capacity p_obj) k"
    using first_free_exists by blast
  then have kn: "k < capacity p_obj" and kf: "\<not> taken (m k)" by (simp_all add: first_free_def)
  have p: "p = payload_addr L (p_memory p_obj) k" and m1: "m1 = set_taken m k True"
    using a alloc_at [OF k, of L] by simp_all
  have fr: "nrf_802154_buffer_allocator_free L p_obj p m1 = Inr (set_taken m1 k False)"
    unfolding p using assms kn by (rule free_at)
  have again: "nrf_802154_buffer_allocator_alloc L p_obj [] (set_taken m1 k False) = Inr (p, m1)"
    unfolding m1 untake_free_slot [of m k, OF kf] p using k by (rule alloc_at)
  show "\<exists>k. k < capacity p_obj \<and> p = payload_addr L (p_memory p_obj) k
      \<and> \<not> taken (m k) \<and> taken (m1 k)
      \<and> nrf_802154_buffer_allocator_free L p_obj p m1 = Inr (set_taken m1 k False)
      \<and> \<not> taken (set_taken m1 k False k)
      \<and> nrf_802154_buffer_allocator_alloc L p_obj [] (set_taken m1 k False) = Inr (p, m1)"
    using kn kf p fr again by (intro exI [of _ k]) (simp add: m1)
next
  fix m0 :: pool_mem
  assume cap: "capacity p_obj = 3"
    and free: "\<not> taken (m0 0) \<and> \<not> taken (m0 1) \<and> \<not> taken (m0 2)"
  let ?A = "payload_addr L (p_memory p_obj) 0"
  let ?B = "payload_addr L (p_memory p_obj) 1"
  let ?C = "payload_addr L (p_memory p_obj) 2"
  have lt: "(0 :: 32 word) < capacity p_obj" "(1 :: 32 word) < capacity p_obj"
    "(2 :: 32 word) < capacity p_obj"
    by (simp_all add: cap)
  have nb: "unat (capacity p_obj) * unat (slot_size L) \<le> 2 ^ 32"
    using assms(2) by (simp add: region_ok_def)
  have nn: "?A \<noteq> NULL" "?B \<noteq> NULL" "?C \<noteq> NULL"
    using assms lt by (simp_all add: payload_not_null)
  have "?A \<noteq> ?B" using payload_inj [OF assms(1) lt(1) lt(2) nb, of "p_memory p_obj"] by auto
  moreover have "?A \<noteq> ?C"
    using payload_inj [OF assms(1) lt(1) lt(3) nb, of "p_memory p_obj"] by auto
  moreover have "?B \<noteq> ?C"
    using payload_inj [OF assms(1) lt(2) lt(3) nb, of "p_memory p_obj"] by auto
  ultimately have d: "distinct [?A, ?B, ?C, NULL]" using nn by simp
  show "\<exists>A B C m12. scenario L p_obj m0 = Inr ([A, B, C, NULL, B, A, B, C], m0, m12)
      \<and> distinct [A, B, C, NULL]"
    using scenario_run [OF assms cap, of m0] free d by blast
qed

theorem allocate_release_round_trip_witness:
  "layout_ok ex_layout \<and> region_ok ex_layout (p_memory ex_pool) (capacity ex_pool)
   \<and> capacity ex_pool = 3
   \<and> nrf_802154_buffer_allocator_alloc ex_layout ex_pool [] ex_mem
        = Inr (0x20000000, set_taken ex_mem 0 True)
   \<and> nrf_802154_buffer_allocator_free ex_layout ex_pool 0x20000000 (set_taken ex_mem 0 True)
        = Inr (set_taken (set_taken ex_mem 0 True) 0 False)
   \<and> (\<exists>A B C m12. scenario ex_layout ex_pool ex_mem
          = Inr ([A, B, C, NULL, B, A, B, C], ex_mem, m12) \<and> distinct [A, B, C, NULL])"
proof -
  have cap: "capacity ex_pool = 3" by (simp add: ex_pool_def)
  have a: "nrf_802154_buffer_allocator_alloc ex_layout ex_pool [] ex_mem
        = Inr (0x20000000, set_taken ex_mem 0 True)"
    using alloc_at [of ex_mem ex_pool 0 ex_layout]
    by (simp add: first_free_def ex_payload) (simp add: ex_pool_def ex_mem_def)
  have free: "\<not> taken (ex_mem 0) \<and> \<not> taken (ex_mem 1) \<and> \<not> taken (ex_mem 2)"
    by (simp add: ex_mem_def)
  note t = allocate_release_round_trip [OF ex_layout_ok ex_region_ok]
  have "\<exists>k. k < capacity ex_pool \<and> 0x20000000 = payload_addr ex_layout (p_memory ex_pool) k
      \<and> \<not> taken (ex_mem k) \<and> taken (set_taken ex_mem 0 True k)
      \<and> nrf_802154_buffer_allocator_free ex_layout ex_pool 0x20000000 (set_taken ex_mem 0 True)
          = Inr (set_taken (set_taken ex_mem 0 True) k False)
      \<and> \<not> taken (set_taken (set_taken ex_mem 0 True) k False k)
      \<and> nrf_802154_buffer_allocator_alloc ex_layout ex_pool []
            (set_taken (set_taken ex_mem 0 True) k False)
          = Inr (0x20000000, set_taken ex_mem 0 True)"
    using t [THEN conjunct1, rule_format, of ex_mem "0x20000000" "set_taken ex_mem 0 True"] a
    by simp
  then obtain k where k: "\<not> taken (ex_mem k)" "taken (set_taken ex_mem 0 True k)"
    "nrf_802154_buffer_allocator_free ex_layout ex_pool 0x20000000 (set_taken ex_mem 0 True)
          = Inr (set_taken (set_taken ex_mem 0 True) k False)"
    by blast
  have "k = 0" using k(1,2) by (simp split: if_splits)
  then have f: "nrf_802154_buffer_allocator_free ex_layout ex_pool 0x20000000 (set_taken ex_mem 0 True)
        = Inr (set_taken (set_taken ex_mem 0 True) 0 False)"
    using k(3) by simp
  from t cap free
  have s: "\<exists>A B C m12. scenario ex_layout ex_pool ex_mem
          = Inr ([A, B, C, NULL, B, A, B, C], ex_mem, m12) \<and> distinct [A, B, C, NULL]"
    by blast
  show ?thesis using ex_layout_ok ex_region_ok cap a f s by blast
qed

text \<open>
  C7, as the claim states it, fails: on the concrete pool, the handle of slot 0 is
  released twice and both releases succeed, and a pointer one byte into slot 0 is
  released successfully too. No assertion fails.
\<close>

theorem double_free_and_misaligned_handle_pass:
  "nrf_802154_buffer_allocator_alloc ex_layout ex_pool [] ex_mem
      = Inr (0x20000000, set_taken ex_mem 0 True)
   \<and> nrf_802154_buffer_allocator_free ex_layout ex_pool 0x20000000 (set_taken ex_mem 0 True)
      = Inr (set_taken (set_taken ex_mem 0 True) 0 False)
   \<and> nrf_802154_buffer_allocator_free ex_layout ex_pool 0x20000000
        (set_taken (set_taken ex_mem 0 True) 0 False)
      = Inr (set_taken (set_taken (set_taken ex_mem 0 True) 0 False) 0 False)
   \<and> nrf_802154_buffer_allocator_free ex_layout ex_pool 0x20000001 (set_taken ex_mem 0 True)
      = Inr (set_taken (set_taken ex_mem 0 True) 0 False)"
proof -
  have f: "first_free ex_mem (capacity ex_pool) 0"
    by (simp add: first_free_def ex_pool_def ex_mem_def)
  have a: "payload_addr ex_layout (p_memory ex_pool) 0 = 0x20000000"
    by (simp add: payload_addr_def slot_addr_def ex_layout_def ex_pool_def)
  have "nrf_802154_buffer_allocator_alloc ex_layout ex_pool [] ex_mem
      = Inr (0x20000000, set_taken ex_mem 0 True)"
    unfolding nrf_802154_buffer_allocator_alloc_def a [symmetric]
    using f by (rule buffer_alloc_seq_claim)
  moreover have "nrf_802154_buffer_allocator_free ex_layout ex_pool 0x20000000 m
      = Inr (set_taken m 0 False)" for m
    by (simp add: nrf_802154_buffer_allocator_free_def buffer_free_def ex_layout_def ex_pool_def)
  moreover have "nrf_802154_buffer_allocator_free ex_layout ex_pool 0x20000001 m
      = Inr (set_taken m 0 False)" for m
    by (simp add: nrf_802154_buffer_allocator_free_def buffer_free_def ex_layout_def ex_pool_def)
  ultimately show ?thesis by simp
qed

text \<open>
  C7, amended. The assertion of initialize fails exactly when the capacity is not zero
  and the memory is \<^verbatim>\<open>NULL\<close>. The assertion of release fails exactly when the index
  \<open>(handle - base) div slot_size\<close>, computed with wrap-around, is not below the
  capacity; any other handle is accepted, and release clears the flag of the slot with
  that index, whatever the flag was and wherever in the slot the handle points.
\<close>

theorem assertions_check_null_memory_and_index_only:
  "(nrf_802154_buffer_allocator_init L memory memsize m = Inl AssertionFailed
      \<longleftrightarrow> memsize div slot_size L \<noteq> 0 \<and> memory = NULL)
   \<and> (nrf_802154_buffer_allocator_free L p_obj p m = Inl AssertionFailed
      \<longleftrightarrow> capacity p_obj \<le> (p - p_memory p_obj) div slot_size L)
   \<and> (nrf_802154_buffer_allocator_free L p_obj p m
        = (if (p - p_memory p_obj) div slot_size L < capacity p_obj
           then Inr (set_taken m ((p - p_memory p_obj) div slot_size L) False)
           else Inl AssertionFailed))"
  by (auto simp: nrf_802154_buffer_allocator_init_def nrf_802154_buffer_allocator_free_def
      buffer_free_def Let_def)

text \<open>
  C8. Every function of the model is total. Without preemption a call of allocate is one
  iteration of the do-while loop that reads at most \<open>capacity\<close> flags and leaves
  \<^verbatim>\<open>retry\<close> false: a scan that no handler interrupts never sets \<^verbatim>\<open>retry\<close>. Under
  an environment of \<open>length irqs\<close> handlers there are at most \<open>length irqs + 1\<close>
  scans, of at most \<open>capacity\<close> reads each.
\<close>

theorem sequential_alloc_is_one_bounded_scan:
  "scans (buffer_alloc_run n [] m) = 1
   \<and> reads (buffer_alloc_run n [] m) \<le> unat n
   \<and> \<not> retry (buffer_alloc_run n [] m)
   \<and> (\<forall>i s. pending s = [] \<longrightarrow> retry (for_loop n i s) = retry s)
   \<and> (\<forall>irqs. scans (buffer_alloc_run n irqs m) \<le> Suc (length irqs)
         \<and> reads (buffer_alloc_run n irqs m) \<le> scans (buffer_alloc_run n irqs m) * unat n)"
proof -
  have gen: "\<not> retry (buffer_alloc_run n irqs m)
      \<and> 0 < scans (buffer_alloc_run n irqs m)
      \<and> scans (buffer_alloc_run n irqs m) \<le> Suc (length irqs)
      \<and> reads (buffer_alloc_run n irqs m) \<le> scans (buffer_alloc_run n irqs m) * unat n" for irqs
    using do_while_facts [of n "\<lparr>p_buffer = None, success = False, retry = False, pool = m,
      pending = irqs, reads = 0, scans = 0\<rparr>"]
    by (simp add: buffer_alloc_run_def)
  have one: "scans (buffer_alloc_run n [] m) = 1"
    using gen [of "[]"] by simp
  have "reads (buffer_alloc_run n [] m) \<le> unat n"
    using gen [of "[]"] one by simp
  moreover have "retry (for_loop n i s) = retry s" if "pending s = []" for i s
    using for_loop_facts [of n i s] that by auto
  ultimately show ?thesis using gen one by simp
qed

theorem sequential_alloc_is_one_bounded_scan_witness:
  "scans (buffer_alloc_run 3 [] ex_mem) = 1 \<and> reads (buffer_alloc_run 3 [] ex_mem) \<le> 3
   \<and> \<not> retry (for_loop 3 0 \<lparr>p_buffer = None, success = False, retry = False,
          pool = ex_mem, pending = [], reads = 0, scans = 1\<rparr>)"
proof -
  let ?s = "\<lparr>p_buffer = None, success = False, retry = False,
          pool = ex_mem, pending = [], reads = 0, scans = 1\<rparr>"
  have h: "pending ?s = []" by simp
  from sequential_alloc_is_one_bounded_scan [of 3 ex_mem]
  have "scans (buffer_alloc_run 3 [] ex_mem) = 1" "reads (buffer_alloc_run 3 [] ex_mem) \<le> unat (3 :: 32 word)"
    "pending ?s = [] \<longrightarrow> retry (for_loop 3 0 ?s) = retry ?s"
    by blast+
  then show ?thesis using h by simp
qed

text \<open>
  C9. A call of allocate finds slot \<open>k\<close> free and is preempted, before it enters
  the critical section, by a handler that calls allocate. The handler gets slot \<open>k\<close>.
  The preempted call then sees the flag set under the lock, does not claim slot \<open>k\<close>,
  and returns \<^verbatim>\<open>NULL\<close> or the pointer of another slot that was free: the two calls
  never return the same slot, and both slots are marked taken at the end.
\<close>

theorem preempted_allocate_never_shares_a_slot:
  assumes "layout_ok L" and "region_ok L (p_memory p_obj) (capacity p_obj)"
    and "first_free m (capacity p_obj) k"
  shows "\<exists>p_lo m2.
       nrf_802154_buffer_allocator_alloc L p_obj [] m
         = Inr (payload_addr L (p_memory p_obj) k, set_taken m k True)
     \<and> alloc_irq L p_obj m = set_taken m k True
     \<and> nrf_802154_buffer_allocator_alloc L p_obj
          (replicate (Suc (unat k)) quiet @ [alloc_irq L p_obj]) m = Inr (p_lo, m2)
     \<and> p_lo \<noteq> payload_addr L (p_memory p_obj) k
     \<and> taken (m2 k)
     \<and> (p_lo = NULL \<and> m2 = set_taken m k True
          \<or> (\<exists>k'. k' < capacity p_obj \<and> k' \<noteq> k \<and> \<not> taken (m k')
                \<and> p_lo = payload_addr L (p_memory p_obj) k'
                \<and> m2 = set_taken (set_taken m k True) k' True))"
proof -
  let ?n = "capacity p_obj"
  let ?m1 = "set_taken m k True"
  let ?env = "replicate (Suc (unat k)) quiet @ [alloc_irq L p_obj]"
  have kn: "k < ?n" using assms(3) by (simp add: first_free_def)
  have nb: "unat ?n * unat (slot_size L) \<le> 2 ^ 32"
    using assms(2) by (simp add: region_ok_def)
  have hi: "nrf_802154_buffer_allocator_alloc L p_obj [] m
      = Inr (payload_addr L (p_memory p_obj) k, ?m1)"
    using assms(3) by (rule alloc_at)
  then have irq: "alloc_irq L p_obj m = ?m1" by (simp add: alloc_irq_def)
  have "taken (alloc_irq L p_obj m k)" by (simp add: irq)
  with assms(3)
  have "buffer_alloc L (p_memory p_obj) ?n ?env m
      = buffer_alloc L (p_memory p_obj) ?n [] (alloc_irq L p_obj m)"
    by (rule buffer_alloc_lost_race)
  then have lo: "nrf_802154_buffer_allocator_alloc L p_obj ?env m
      = nrf_802154_buffer_allocator_alloc L p_obj [] ?m1"
    by (simp add: nrf_802154_buffer_allocator_alloc_def irq)
  have nn: "payload_addr L (p_memory p_obj) k \<noteq> NULL"
    using assms(1) kn assms(2) by (rule payload_not_null)
  show ?thesis
  proof (cases "\<forall>j. j < ?n \<longrightarrow> taken (?m1 j)")
    case True
    then have "nrf_802154_buffer_allocator_alloc L p_obj [] ?m1 = Inr (NULL, ?m1)"
      by (rule alloc_full)
    then show ?thesis using hi irq lo nn by (intro exI [of _ NULL] exI [of _ ?m1]) auto
  next
    case False
    then obtain j where "j < ?n" "\<not> taken (?m1 j)" by blast
    then obtain k' where k': "first_free ?m1 ?n k'"
      using first_free_exists by blast
    then have k'n: "k' < ?n" and k'f: "\<not> taken (?m1 k')" by (simp_all add: first_free_def)
    have ne: "k' \<noteq> k" using k'f by auto
    then have free: "\<not> taken (m k')" using k'f by simp
    have "nrf_802154_buffer_allocator_alloc L p_obj [] ?m1
        = Inr (payload_addr L (p_memory p_obj) k', set_taken ?m1 k' True)"
      using k' by (rule alloc_at)
    moreover have "payload_addr L (p_memory p_obj) k' \<noteq> payload_addr L (p_memory p_obj) k"
      using payload_inj [OF assms(1) k'n kn nb, of "p_memory p_obj"] ne by auto
    ultimately show ?thesis
      using hi irq lo ne k'n free
      by (intro exI [of _ "payload_addr L (p_memory p_obj) k'"] exI [of _ "set_taken ?m1 k' True"])
        auto
  qed
qed

theorem preempted_allocate_never_shares_a_slot_witness:
  "layout_ok ex_layout \<and> region_ok ex_layout (p_memory ex_pool) (capacity ex_pool)
   \<and> first_free ex_mem (capacity ex_pool) 0
   \<and> nrf_802154_buffer_allocator_alloc ex_layout ex_pool [] ex_mem
        = Inr (0x20000000, set_taken ex_mem 0 True)
   \<and> nrf_802154_buffer_allocator_alloc ex_layout ex_pool
        [quiet, alloc_irq ex_layout ex_pool] ex_mem
        = Inr (0x20000082, set_taken (set_taken ex_mem 0 True) 1 True)"
proof -
  have f: "first_free ex_mem (capacity ex_pool) 0"
    by (simp add: first_free_def ex_pool_def ex_mem_def)
  obtain p_lo m2 where r:
    "nrf_802154_buffer_allocator_alloc ex_layout ex_pool [] ex_mem
       = Inr (payload_addr ex_layout (p_memory ex_pool) 0, set_taken ex_mem 0 True)"
    "nrf_802154_buffer_allocator_alloc ex_layout ex_pool
       (replicate (Suc (unat (0 :: 32 word))) quiet @ [alloc_irq ex_layout ex_pool]) ex_mem
       = Inr (p_lo, m2)"
    "p_lo = NULL \<and> m2 = set_taken ex_mem 0 True
      \<or> (\<exists>k'. k' < capacity ex_pool \<and> k' \<noteq> 0 \<and> \<not> taken (ex_mem k')
            \<and> p_lo = payload_addr ex_layout (p_memory ex_pool) k'
            \<and> m2 = set_taken (set_taken ex_mem 0 True) k' True)"
    using preempted_allocate_never_shares_a_slot [OF ex_layout_ok ex_region_ok f] by blast
  have lo: "nrf_802154_buffer_allocator_alloc ex_layout ex_pool
       (replicate (Suc (unat (0 :: 32 word))) quiet @ [alloc_irq ex_layout ex_pool]) ex_mem
     = nrf_802154_buffer_allocator_alloc ex_layout ex_pool [] (set_taken ex_mem 0 True)"
    using buffer_alloc_lost_race [of ex_mem "capacity ex_pool" 0 "alloc_irq ex_layout ex_pool"
        ex_layout "p_memory ex_pool" "[]"] f r(1)
    by (simp add: nrf_802154_buffer_allocator_alloc_def alloc_irq_def)
  have "first_free (set_taken ex_mem 0 True) (capacity ex_pool) 1"
    by (intro first_free_1) (simp_all add: ex_pool_def ex_mem_def)
  then have "nrf_802154_buffer_allocator_alloc ex_layout ex_pool [] (set_taken ex_mem 0 True)
     = Inr (payload_addr ex_layout (p_memory ex_pool) 1, set_taken (set_taken ex_mem 0 True) 1 True)"
    by (rule alloc_at)
  with lo r(1) show ?thesis
    using ex_layout_ok ex_region_ok f by (simp add: ex_payload)
qed

text \<open>
  C10. Under every environment \<^verbatim>\<open>buffer_alloc\<close> returns a pointer, never the
  dereference of a null \<^verbatim>\<open>p_buffer\<close>. Without preemption, when no slot is free
  \<^verbatim>\<open>success\<close> stays false and the result is \<^verbatim>\<open>NULL\<close> with the memory unchanged. On
  an empty pool \<^verbatim>\<open>p_buffer\<close> is still \<^verbatim>\<open>NULL\<close> at the end, \<^verbatim>\<open>success\<close> is false and
  the result is \<^verbatim>\<open>NULL\<close>.
\<close>

theorem alloc_failure_path_never_dereferences:
  "(\<exists>p m'. buffer_alloc L base n irqs m = Inr (p, m'))
   \<and> ((\<forall>j. j < n \<longrightarrow> taken (m j)) \<longrightarrow>
        \<not> success (buffer_alloc_run n [] m) \<and> buffer_alloc L base n [] m = Inr (NULL, m))
   \<and> p_buffer (buffer_alloc_run 0 irqs m) = None
   \<and> \<not> success (buffer_alloc_run 0 irqs m)
   \<and> buffer_alloc L base 0 irqs m = Inr (NULL, m)"
proof -
  have "\<not> success (buffer_alloc_run n [] m) \<and> buffer_alloc L base n [] m = Inr (NULL, m)"
    if "\<forall>j. j < n \<longrightarrow> taken (m j)"
    using that by (simp add: buffer_alloc_run_exhausted buffer_alloc_seq_null)
  moreover have "buffer_alloc L base 0 irqs m = Inr (NULL, m)"
    by (simp add: buffer_alloc_def buffer_alloc_empty_pool)
  ultimately show ?thesis
    using buffer_alloc_total [of L base n irqs m] by (simp add: buffer_alloc_empty_pool)
qed

theorem alloc_failure_path_never_dereferences_witness:
  "buffer_alloc ex_layout 0x20000000 3 [] (\<lambda>i. \<lparr>data = [], taken = True\<rparr>)
     = Inr (NULL, \<lambda>i. \<lparr>data = [], taken = True\<rparr>)
   \<and> \<not> success (buffer_alloc_run 3 [] (\<lambda>i. \<lparr>data = [], taken = True\<rparr>))
   \<and> buffer_alloc ex_layout NULL 0 [] ex_mem = Inr (NULL, ex_mem)"
  using alloc_failure_path_never_dereferences
      [of ex_layout "0x20000000" 3 "[]" "\<lambda>i. \<lparr>data = [], taken = True\<rparr>"]
    alloc_failure_path_never_dereferences [of ex_layout NULL 0 "[]" ex_mem]
  by simp

end
